theory Spec2Isabelle
  imports Main "HOL-Library.Word" "HOL-Library.Sublist"
begin

section \<open>The value codec of the Consul certificate storage (crypto.go)\<close>

text \<open>
  A Go byte slice is a list of 8-bit words. A Go string is an immutable byte
  sequence, and the conversions \<^verbatim>\<open>[]byte(s)\<close> and \<^verbatim>\<open>string(b)\<close> copy the bytes
  unchanged, so the value prefix is a byte list as well.
\<close>

type_synonym byte = "8 word"
type_synonym bytes = "byte list"

text \<open>
  Go errors. \<open>Wrapped msg err\<close> is \<^verbatim>\<open>fmt.Errorf(msg + ": %w", err)\<close>; the two
  sentinel errors of crypto.go are \<^verbatim>\<open>errors.New("invalid contents")\<close> and
  \<^verbatim>\<open>errors.New("invalid data format")\<close>. The others are errors of the standard
  library: \<^verbatim>\<open>aes.KeySizeError\<close>, the block-size error of \<^verbatim>\<open>cipher.NewGCM\<close>,
  \<^verbatim>\<open>cipher: message authentication failed\<close> of \<^verbatim>\<open>Open\<close>, the two errors of
  \<^verbatim>\<open>io.ReadFull\<close> (\<^verbatim>\<open>io.EOF\<close> and \<^verbatim>\<open>io.ErrUnexpectedEOF\<close>), and whatever
  \<^verbatim>\<open>encoding/json\<close> reports.
\<close>

datatype error =
    KeySizeError nat
  | GCMBlockSizeError
  | ErrOpen
  | EOF
  | ErrUnexpectedEOF
  | JSONError nat
  | ErrInvalidContents
  | ErrInvalidDataFormat
  | Wrapped string error

text \<open>
  Modelled from the spec: the declarations of \<^verbatim>\<open>StorageData\<close> and of
  \<^verbatim>\<open>ConsulStorage\<close> (storage.go is not among the sources). The record holds an
  opaque payload and the time of the last write; the configuration holds the
  symmetric key (empty: no encryption) and the value-format prefix, both read
  by crypto.go, and the namespace prefix of the keys.
\<close>

record StorageData =
  Value :: bytes
  Modified :: int

record ConsulStorage =
  AESKey :: bytes
  ValuePrefix :: bytes
  Prefix :: string

subsection \<open>The standard library, as crypto.go uses it\<close>

text \<open>
  The AEAD primitive (AES in Galois/counter mode) and the JSON encoder are
  code of the Go standard library. They are parameters of the model:
  \<open>aead_seal key nonce plaintext ad\<close> is the ciphertext followed by the tag,
  \<open>aead_open key nonce ciphertext ad\<close> the plaintext or an error.
\<close>

record stdlib =
  aead_seal :: "bytes \<Rightarrow> bytes \<Rightarrow> bytes \<Rightarrow> bytes \<Rightarrow> bytes"
  aead_open :: "bytes \<Rightarrow> bytes \<Rightarrow> bytes \<Rightarrow> bytes \<Rightarrow> error + bytes"
  json_Marshal :: "StorageData \<Rightarrow> error + bytes"
  json_Unmarshal :: "bytes \<Rightarrow> error + StorageData"

datatype aes_cipher = AESCipher bytes
datatype gcm = GCM aes_cipher

definition aes_BlockSize :: nat where
  "aes_BlockSize = 16"

definition gcmStandardNonceSize :: nat where
  "gcmStandardNonceSize = 12"

definition gcmTagSize :: nat where
  "gcmTagSize = 16"

text \<open>\<^verbatim>\<open>aes.NewCipher\<close>: the key is 16, 24 or 32 bytes long, or the call fails.\<close>

definition aes_NewCipher :: "bytes \<Rightarrow> error + aes_cipher" where
  "aes_NewCipher key =
     (if length key = 16 \<or> length key = 24 \<or> length key = 32
      then Inr (AESCipher key)
      else Inl (KeySizeError (length key)))"

fun BlockSize :: "aes_cipher \<Rightarrow> nat" where
  "BlockSize (AESCipher key) = aes_BlockSize"

text \<open>\<^verbatim>\<open>cipher.NewGCM\<close>: fails unless the block cipher has 128-bit blocks.\<close>

definition cipher_NewGCM :: "aes_cipher \<Rightarrow> error + gcm" where
  "cipher_NewGCM c =
     (if BlockSize c \<noteq> 16 then Inl GCMBlockSizeError else Inr (GCM c))"

fun NonceSize :: "gcm \<Rightarrow> nat" where
  "NonceSize (GCM c) = gcmStandardNonceSize"

text \<open>\<^verbatim>\<open>gcm.Seal(dst, nonce, plaintext, ad)\<close> appends the sealed text to \<open>dst\<close>.\<close>

fun Seal :: "stdlib \<Rightarrow> gcm \<Rightarrow> bytes \<Rightarrow> bytes \<Rightarrow> bytes \<Rightarrow> bytes \<Rightarrow> bytes" where
  "Seal lib (GCM (AESCipher key)) dst nonce plaintext ad =
     dst @ aead_seal lib key nonce plaintext ad"

text \<open>\<^verbatim>\<open>gcm.Open(nil, nonce, ciphertext, ad)\<close>.\<close>

fun Open :: "stdlib \<Rightarrow> gcm \<Rightarrow> bytes \<Rightarrow> bytes \<Rightarrow> bytes \<Rightarrow> error + bytes" where
  "Open lib (GCM (AESCipher key)) nonce ciphertext ad =
     aead_open lib key nonce ciphertext ad"

text \<open>
  \<^verbatim>\<open>io.ReadFull(rand.Reader, buf)\<close> with a buffer of \<open>n\<close> bytes: \<open>rnd\<close> is what
  the random source delivers to this call. A full buffer is no error; a source
  that ends before any byte was read gives \<^verbatim>\<open>io.EOF\<close>, one that ends after
  some but not all bytes gives \<^verbatim>\<open>io.ErrUnexpectedEOF\<close>.
\<close>

definition io_ReadFull :: "bytes \<Rightarrow> nat \<Rightarrow> error + bytes" where
  "io_ReadFull rnd n =
     (if n \<le> length rnd then Inr (take n rnd)
      else if length rnd = 0 then Inl EOF
      else Inl ErrUnexpectedEOF)"

subsection \<open>encrypt, EncryptStorageData, decrypt, DecryptStorageData\<close>

definition encrypt :: "stdlib \<Rightarrow> ConsulStorage \<Rightarrow> bytes \<Rightarrow> bytes \<Rightarrow> error + bytes" where
  "encrypt lib cs rnd bs =
     (if length (AESKey cs) = 0 then Inr bs
      else case aes_NewCipher (AESKey cs) of
        Inl err \<Rightarrow> Inl (Wrapped ''unable to create AES cipher'' err)
      | Inr c \<Rightarrow>
          (case cipher_NewGCM c of
             Inl err \<Rightarrow> Inl (Wrapped ''unable to create GCM cipher'' err)
           | Inr g \<Rightarrow>
               (case io_ReadFull rnd (NonceSize g) of
                  Inl err \<Rightarrow> Inl (Wrapped ''unable to generate nonce'' err)
                | Inr nonce \<Rightarrow> Inr (Seal lib g nonce nonce bs []))))"

definition EncryptStorageData ::
    "stdlib \<Rightarrow> ConsulStorage \<Rightarrow> bytes \<Rightarrow> StorageData \<Rightarrow> error + bytes" where
  "EncryptStorageData lib cs rnd data =
     (case json_Marshal lib data of
        Inl err \<Rightarrow> Inl (Wrapped ''unable to marshal'' err)
      | Inr bs \<Rightarrow> encrypt lib cs rnd (ValuePrefix cs @ bs))"

text \<open>
  In \<open>decrypt\<close> the slices \<^verbatim>\<open>bytes[:gcm.NonceSize()]\<close> and
  \<^verbatim>\<open>bytes[gcm.NonceSize():]\<close> are taken only after the length check against
  \<^verbatim>\<open>aes.BlockSize\<close>, so they are in range and \<open>take\<close> and \<open>drop\<close> are the slices.
\<close>

definition decrypt :: "stdlib \<Rightarrow> ConsulStorage \<Rightarrow> bytes \<Rightarrow> error + bytes" where
  "decrypt lib cs bs =
     (if length (AESKey cs) = 0 then Inr bs
      else if length bs < aes_BlockSize then Inl ErrInvalidContents
      else case aes_NewCipher (AESKey cs) of
        Inl err \<Rightarrow> Inl (Wrapped ''unable to create AES cipher'' err)
      | Inr block \<Rightarrow>
          (case cipher_NewGCM block of
             Inl err \<Rightarrow> Inl (Wrapped ''unable to create GCM cipher'' err)
           | Inr g \<Rightarrow>
               (case Open lib g (take (NonceSize g) bs) (drop (NonceSize g) bs) [] of
                  Inl err \<Rightarrow> Inl (Wrapped ''decryption failure'' err)
                | Inr out \<Rightarrow> Inr out)))"

definition DecryptStorageData ::
    "stdlib \<Rightarrow> ConsulStorage \<Rightarrow> bytes \<Rightarrow> error + StorageData" where
  "DecryptStorageData lib cs bs0 =
     (case decrypt lib cs bs0 of
        Inl err \<Rightarrow> Inl (Wrapped ''unable to decrypt data'' err)
      | Inr bs \<Rightarrow>
          if length bs < length (ValuePrefix cs)
             \<or> take (length (ValuePrefix cs)) bs \<noteq> ValuePrefix cs
          then Inl ErrInvalidDataFormat
          else (case json_Unmarshal lib (drop (length (ValuePrefix cs)) bs) of
                  Inl err \<Rightarrow> Inl (Wrapped ''unable to unmarshal result'' err)
                | Inr data \<Rightarrow> Inr data))"

subsection \<open>What the theorems ask of the standard library\<close>

definition valid_key :: "bytes \<Rightarrow> bool" where
  "valid_key key = (length key = 16 \<or> length key = 24 \<or> length key = 32)"

text \<open>
  For a key and nonces of the standard size, \<open>Open\<close> returns what \<open>Seal\<close> was
  given, and the sealed text is the plaintext's length plus the tag
  (\<^verbatim>\<open>Overhead()\<close>).
\<close>

definition aead_sound :: "stdlib \<Rightarrow> bytes \<Rightarrow> bool" where
  "aead_sound lib key =
     (\<forall>nonce pt. length nonce = gcmStandardNonceSize \<longrightarrow>
        length (aead_seal lib key nonce pt []) = length pt + gcmTagSize \<and>
        aead_open lib key nonce (aead_seal lib key nonce pt []) [] = Inr pt)"

text \<open>A ciphertext too short to hold a tag fails authentication.\<close>

definition open_rejects_short :: "stdlib \<Rightarrow> bytes \<Rightarrow> bool" where
  "open_rejects_short lib key =
     (\<forall>nonce ct. length ct < gcmTagSize \<longrightarrow> aead_open lib key nonce ct [] = Inl ErrOpen)"

text \<open>
  Integrity against a change of one byte: for a nonce of the standard size,
  when one byte of the nonce followed by the sealed text is replaced by another
  value, \<open>Open\<close> on the first twelve bytes as nonce and the rest as ciphertext
  fails authentication.
\<close>

definition open_rejects_tampered :: "stdlib \<Rightarrow> bytes \<Rightarrow> bool" where
  "open_rejects_tampered lib key =
     (\<forall>nonce pt p b.
        length nonce = gcmStandardNonceSize
        \<and> p < length (nonce @ aead_seal lib key nonce pt [])
        \<and> b \<noteq> (nonce @ aead_seal lib key nonce pt []) ! p \<longrightarrow>
        aead_open lib key
          (take gcmStandardNonceSize ((nonce @ aead_seal lib key nonce pt [])[p := b]))
          (drop gcmStandardNonceSize ((nonce @ aead_seal lib key nonce pt [])[p := b])) []
        = Inl ErrOpen)"

text \<open>A record is representable when the JSON encoder gives it back.\<close>

definition representable :: "stdlib \<Rightarrow> StorageData \<Rightarrow> bool" where
  "representable lib r =
     (case json_Marshal lib r of
        Inl err \<Rightarrow> False
      | Inr j \<Rightarrow> json_Unmarshal lib j = Inr r)"

subsection \<open>A small instance of the library\<close>

text \<open>
  An instance of the parameters on which the definitions can be run: the
  cipher shifts every byte by the key's length and the tag is the nonce padded
  to sixteen bytes; the encoder writes the time stamp in one byte before the
  payload, so only stamps from 0 to 255 are representable.
\<close>

definition demo_tag :: "bytes \<Rightarrow> bytes" where
  "demo_tag nonce = take 16 (nonce @ replicate 16 0)"

definition demo_seal :: "bytes \<Rightarrow> bytes \<Rightarrow> bytes \<Rightarrow> bytes \<Rightarrow> bytes" where
  "demo_seal key nonce pt ad = map (\<lambda>b. b + of_nat (length key)) pt @ demo_tag nonce"

definition demo_open :: "bytes \<Rightarrow> bytes \<Rightarrow> bytes \<Rightarrow> bytes \<Rightarrow> error + bytes" where
  "demo_open key nonce ct ad =
     (if length ct < 16 then Inl ErrOpen
      else if drop (length ct - 16) ct \<noteq> demo_tag nonce then Inl ErrOpen
      else Inr (map (\<lambda>b. b - of_nat (length key)) (take (length ct - 16) ct)))"

definition demo_Marshal :: "StorageData \<Rightarrow> error + bytes" where
  "demo_Marshal r =
     (if 0 \<le> Modified r \<and> Modified r < 256
      then Inr (word_of_int (Modified r) # Value r)
      else Inl (JSONError 0))"

definition demo_Unmarshal :: "bytes \<Rightarrow> error + StorageData" where
  "demo_Unmarshal bs =
     (case bs of
        [] \<Rightarrow> Inl (JSONError 1)
      | m # v \<Rightarrow> Inr \<lparr>Value = v, Modified = uint m\<rparr>)"

definition demo_lib :: stdlib where
  "demo_lib = \<lparr>aead_seal = demo_seal, aead_open = demo_open,
               json_Marshal = demo_Marshal, json_Unmarshal = demo_Unmarshal\<rparr>"

text \<open>
  A second instance, for the integrity hypothesis: the same cipher, with a tag
  whose first byte makes the bytes of nonce, ciphertext and tag add up to zero,
  so that \<open>Open\<close> notices every change of one byte.
\<close>

definition sum_seal :: "bytes \<Rightarrow> bytes \<Rightarrow> bytes \<Rightarrow> bytes \<Rightarrow> bytes" where
  "sum_seal key nonce pt ad =
     (let body = map (\<lambda>b. b + of_nat (length key)) pt
      in body @ (- sum_list (nonce @ body)) # replicate 15 0)"

definition sum_open :: "bytes \<Rightarrow> bytes \<Rightarrow> bytes \<Rightarrow> bytes \<Rightarrow> error + bytes" where
  "sum_open key nonce ct ad =
     (if length ct < 16 then Inl ErrOpen
      else if sum_list (nonce @ ct) \<noteq> 0 then Inl ErrOpen
      else Inr (map (\<lambda>b. b - of_nat (length key)) (take (length ct - 16) ct)))"

definition sum_lib :: stdlib where
  "sum_lib = \<lparr>aead_seal = sum_seal, aead_open = sum_open,
              json_Marshal = demo_Marshal, json_Unmarshal = demo_Unmarshal\<rparr>"

definition demo_key :: bytes where
  "demo_key = [1, 2, 3, 4, 5, 6, 7, 8, 9, 10, 11, 12, 13, 14, 15, 16]"

definition demo_rnd :: bytes where
  "demo_rnd = [7, 7, 7, 7, 7, 7, 7, 7, 7, 7, 7, 7, 9]"

definition demo_cs :: ConsulStorage where
  "demo_cs = \<lparr>AESKey = demo_key, ValuePrefix = [99, 116], Prefix = ''consultlstest''\<rparr>"

definition demo_plain_cs :: ConsulStorage where
  "demo_plain_cs = \<lparr>AESKey = [], ValuePrefix = [99, 116], Prefix = ''consultlstest''\<rparr>"

definition demo_bad_cs :: ConsulStorage where
  "demo_bad_cs = \<lparr>AESKey = [1, 2, 3], ValuePrefix = [99, 116], Prefix = ''consultlstest''\<rparr>"

definition demo_data :: StorageData where
  "demo_data = \<lparr>Value = [1, 2, 3], Modified = 5\<rparr>"

text \<open>
  What \<open>EncryptStorageData\<close> writes for this record under the second instance
  with \<open>demo_key\<close> and the nonce of twelve sevens.
\<close>

definition sum_enc :: bytes where
  "sum_enc = replicate 12 7 @ [115, 132, 21, 17, 18, 19, 106] @ replicate 15 0"

section \<open>Keys, Store and List\<close>

text \<open>
  \<^verbatim>\<open>Store\<close> and \<^verbatim>\<open>List\<close> are in storage.go, which is not among the sources;
  \<^verbatim>\<open>storage_test.go\<close> calls them. They are modelled from the spec, as are the
  Key-Space Mapper and the two operations of the KV store they use.
\<close>

text \<open>
  Modelled from the spec: the KV store, an external collaborator, as far as
  \<^verbatim>\<open>Store\<close> and \<^verbatim>\<open>List\<close> use it: the keys with their values, in the order of
  their first write.
\<close>

type_synonym kv_store = "(string \<times> bytes) list"

text \<open>
  Modelled from the spec: the Key-Space Mapper (storage.go). A physical key is
  the configured namespace prefix, the separator and the logical key; the inverse
  strips them and fails outside the namespace.
\<close>

definition toPhysical :: "string \<Rightarrow> string \<Rightarrow> string" where
  "toPhysical ns key = ns @ ''/'' @ key"

definition toLogical :: "string \<Rightarrow> string \<Rightarrow> string option" where
  "toLogical ns pkey =
     (if prefix (ns @ ''/'') pkey then Some (drop (length ns + 1) pkey) else None)"

text \<open>
  Modelled from the spec: \<^verbatim>\<open>put(key, value)\<close>, the unconditional write of the KV
  store, and \<^verbatim>\<open>list(prefix)\<close>, its flat prefix listing.
\<close>

fun kv_put :: "string \<Rightarrow> bytes \<Rightarrow> kv_store \<Rightarrow> kv_store" where
  "kv_put k v [] = [(k, v)]"
| "kv_put k v ((k', v') # kv) =
     (if k' = k then (k, v) # kv else (k', v') # kv_put k v kv)"

definition kv_list :: "kv_store \<Rightarrow> string \<Rightarrow> string list" where
  "kv_list kv p = filter (prefix p) (map fst kv)"

text \<open>
  Modelled from the spec: splitting a key on the path separator and joining
  segments again, which the non-recursive listing needs (storage.go).
\<close>

fun split_path :: "string \<Rightarrow> string list" where
  "split_path [] = [[]]"
| "split_path (c # cs) =
     (if c = CHR ''/'' then [] # split_path cs
      else (case split_path cs of
              [] \<Rightarrow> [[c]]
            | seg # segs \<Rightarrow> (c # seg) # segs))"

fun join_path :: "string list \<Rightarrow> string" where
  "join_path [] = []"
| "join_path [seg] = seg"
| "join_path (seg # segs) = seg @ ''/'' @ join_path segs"

text \<open>
  Modelled from the spec: \<^verbatim>\<open>Store\<close> (storage.go) wraps the payload in a record
  with the current time, encodes it and writes it at the mapped physical key,
  overwriting any existing value.
\<close>

definition Store ::
    "stdlib \<Rightarrow> ConsulStorage \<Rightarrow> bytes \<Rightarrow> int \<Rightarrow> kv_store \<Rightarrow> string \<Rightarrow> bytes
       \<Rightarrow> error + kv_store" where
  "Store lib cs rnd now kv key payload =
     (case EncryptStorageData lib cs rnd \<lparr>Value = payload, Modified = now\<rparr> of
        Inl err \<Rightarrow> Inl err
      | Inr enc \<Rightarrow> Inr (kv_put (toPhysical (Prefix cs) key) enc kv))"

text \<open>
  Modelled from the spec: \<^verbatim>\<open>List\<close> (storage.go) lists the physical prefix in
  the KV store, translates every key back to logical form and keeps the
  descendants of the prefix, the keys that continue it with the separator. The
  recursive mode returns these keys; the non-recursive mode splits each on the
  separator, keeps one segment more than the prefix has, so that each result is
  the prefix, the separator and a child segment, and removes duplicates.
\<close>

definition List_keys :: "ConsulStorage \<Rightarrow> kv_store \<Rightarrow> string \<Rightarrow> bool \<Rightarrow> string list" where
  "List_keys cs kv pfx recursive =
     (let found = filter (prefix (pfx @ ''/''))
                    (List.map_filter (toLogical (Prefix cs))
                       (kv_list kv (toPhysical (Prefix cs) pfx)))
      in if recursive then found
         else remdups
                (map (\<lambda>k. join_path (take (length (split_path pfx) + 1) (split_path k)))
                   found))"

section \<open>The distributed lock\<close>

text \<open>
  \<^verbatim>\<open>Lock\<close> and \<^verbatim>\<open>Unlock\<close> are in storage.go, which is not among the sources;
  \<^verbatim>\<open>storage_test.go\<close> calls them. They are modelled from the spec, which gives
  a state machine per lock key and an algorithm on the sessions and the atomic
  conditional write of the KV store. The instances run interleaved: an event is
  one atomic action of one instance (or of the store, for an expiry).
\<close>

text \<open>
  Modelled from the spec: the states of a Lock Handle (storage.go). A handle is
  \<open>Contended\<close> while its call of \<^verbatim>\<open>Lock\<close> is blocked because another session
  holds the key.
\<close>

datatype handle_state = Unlocked | Contended | Acquired

text \<open>
  Modelled from the spec: the lock keys of the KV store, each unheld or bound
  to a session, and the handle of every instance on every key. An instance has
  one session, so the lock key holds the instance.
\<close>

type_synonym inst = nat

record lock_world =
  kv_lock :: "string \<Rightarrow> inst option"
  handle :: "inst \<Rightarrow> string \<Rightarrow> handle_state"

text \<open>
  Modelled from the spec: what happens to a lock key (storage.go and the KV
  store): a call of \<^verbatim>\<open>Lock\<close>, the retry of a blocked call after a change of the
  key, the caller's deadline, a call of \<^verbatim>\<open>Unlock\<close>, and the expiry of the
  holder's session.
\<close>

datatype lock_event =
    Lock_call inst string
  | Lock_retry inst string
  | Lock_deadline inst string
  | Unlock_call inst string
  | Session_expiry inst string

text \<open>
  Modelled from the spec: \<^verbatim>\<open>casPut\<close>, the conditional write of the KV store:
  it sets the lock key to the session only if the key is unheld.
\<close>

definition casPut :: "string \<Rightarrow> inst \<Rightarrow> lock_world \<Rightarrow> bool \<times> lock_world" where
  "casPut k i w =
     (if kv_lock w k = None then (True, w\<lparr>kv_lock := (kv_lock w)(k \<mapsto> i)\<rparr>)
      else (False, w))"

text \<open>
  Modelled from the spec: the steps of the algorithm (storage.go). The
  conditional acquire makes the handle \<open>Acquired\<close> on success and \<open>Contended\<close>
  otherwise; the release frees the key and ends the handle.
\<close>

definition set_handle :: "inst \<Rightarrow> string \<Rightarrow> handle_state \<Rightarrow> lock_world \<Rightarrow> lock_world" where
  "set_handle i k st w = w\<lparr>handle := (handle w)(i := (handle w i)(k := st))\<rparr>"

definition try_acquire :: "inst \<Rightarrow> string \<Rightarrow> lock_world \<Rightarrow> lock_world" where
  "try_acquire i k w =
     (case casPut k i w of
        (True, w') \<Rightarrow> set_handle i k Acquired w'
      | (False, w') \<Rightarrow> set_handle i k Contended w')"

definition release :: "inst \<Rightarrow> string \<Rightarrow> lock_world \<Rightarrow> lock_world" where
  "release i k w = set_handle i k Unlocked (w\<lparr>kv_lock := (kv_lock w)(k := None)\<rparr>)"

text \<open>
  Modelled from the spec: \<^verbatim>\<open>Lock\<close> and \<^verbatim>\<open>Unlock\<close> (storage.go) as transitions.
  \<^verbatim>\<open>Lock\<close> attempts the conditional acquire and blocks on failure; a blocked
  call retries, or gives up at its deadline; \<^verbatim>\<open>Unlock\<close> releases the key if the
  handle owns it, and so does the expiry of the session.
\<close>

fun lock_step :: "lock_world \<Rightarrow> lock_event \<Rightarrow> lock_world" where
  "lock_step w (Lock_call i k) =
     (if handle w i k = Unlocked then try_acquire i k w else w)"
| "lock_step w (Lock_retry i k) =
     (if handle w i k = Contended then try_acquire i k w else w)"
| "lock_step w (Lock_deadline i k) =
     (if handle w i k = Contended then set_handle i k Unlocked w else w)"
| "lock_step w (Unlock_call i k) =
     (if handle w i k = Acquired then release i k w else w)"
| "lock_step w (Session_expiry i k) =
     (if handle w i k = Acquired then release i k w else w)"

text \<open>
  Modelled from the spec: the runs of the instances from the state in which
  no key is held.
\<close>

definition lock_init :: lock_world where
  "lock_init = \<lparr>kv_lock = (\<lambda>k. None), handle = (\<lambda>i k. Unlocked)\<rparr>"

definition lock_run :: "lock_world \<Rightarrow> lock_event list \<Rightarrow> lock_world" where
  "lock_run w evs = foldl lock_step w evs"

text \<open>
  Modelled from the spec: what the wait of a blocked \<^verbatim>\<open>Lock\<close> lasts until.
  The events that end the wait of \<open>j\<close> for the key \<open>k\<close> held by \<open>i\<close>: the holder's
  \<^verbatim>\<open>Unlock\<close>, the expiry of its session, and the deadline of the waiting call.
\<close>

definition keeps_waiting :: "inst \<Rightarrow> inst \<Rightarrow> string \<Rightarrow> lock_event list \<Rightarrow> bool" where
  "keeps_waiting i j k evs =
     list_all (\<lambda>e. e \<noteq> Unlock_call i k \<and> e \<noteq> Session_expiry i k \<and> e \<noteq> Lock_deadline j k) evs"

text \<open>
  Modelled from the spec: the lock key is bound to the session of its holder.
  The invariant of the runs: the lock key holds an instance exactly when that
  instance's handle is acquired.
\<close>

definition lock_inv :: "lock_world \<Rightarrow> bool" where
  "lock_inv w =
     ((\<forall>i k. kv_lock w k = Some i \<longrightarrow> handle w i k = Acquired)
      \<and> (\<forall>i k. handle w i k = Acquired \<longrightarrow> kv_lock w k = Some i))"

section \<open>Properties of the codec\<close>

subsection \<open>The library instance meets what is asked of it\<close>

lemma demo_sound: "aead_sound demo_lib key"
  by (simp add: aead_sound_def demo_lib_def demo_seal_def demo_open_def demo_tag_def
        gcmTagSize_def gcmStandardNonceSize_def o_def)

lemma demo_short: "open_rejects_short demo_lib key"
  by (simp add: open_rejects_short_def demo_lib_def demo_open_def gcmTagSize_def)

lemma demo_repr: "representable demo_lib demo_data"
  by (simp add: representable_def demo_lib_def demo_Marshal_def demo_Unmarshal_def demo_data_def)

subsection \<open>The paths through encrypt and decrypt\<close>

lemma aes_ok: "valid_key key \<Longrightarrow> aes_NewCipher key = Inr (AESCipher key)"
  by (auto simp: valid_key_def aes_NewCipher_def)

lemma gcm_ok: "cipher_NewGCM (AESCipher key) = Inr (GCM (AESCipher key))"
  by (simp add: cipher_NewGCM_def aes_BlockSize_def)

lemma encrypt_plain: "AESKey cs = [] \<Longrightarrow> encrypt lib cs rnd bs = Inr bs"
  by (simp add: encrypt_def)

lemma decrypt_plain: "AESKey cs = [] \<Longrightarrow> decrypt lib cs bs = Inr bs"
  by (simp add: decrypt_def)

lemma encrypt_keyed:
  "valid_key (AESKey cs) \<Longrightarrow> gcmStandardNonceSize \<le> length rnd \<Longrightarrow>
   encrypt lib cs rnd bs =
     Inr (take gcmStandardNonceSize rnd @
          aead_seal lib (AESKey cs) (take gcmStandardNonceSize rnd) bs [])"
  by (auto simp: encrypt_def aes_ok gcm_ok io_ReadFull_def valid_key_def)

lemma decrypt_keyed:
  "valid_key (AESKey cs) \<Longrightarrow> aes_BlockSize \<le> length bs \<Longrightarrow>
   decrypt lib cs bs =
     (case aead_open lib (AESKey cs) (take gcmStandardNonceSize bs)
             (drop gcmStandardNonceSize bs) [] of
        Inl err \<Rightarrow> Inl (Wrapped ''decryption failure'' err)
      | Inr out \<Rightarrow> Inr out)"
  by (auto simp: decrypt_def aes_ok gcm_ok valid_key_def)

text \<open>
  With a valid key and an input of at least a block, the verdict of \<open>Open\<close> on
  the first twelve bytes as nonce and the rest as ciphertext is the verdict of
  \<open>DecryptStorageData\<close>: a rejection becomes the decryption failure, and no
  record is returned.
\<close>

lemma Open_rejection_is_decode_failure:
  assumes "valid_key (AESKey cs)" and "aes_BlockSize \<le> length bs"
    and "aead_open lib (AESKey cs) (take gcmStandardNonceSize bs)
           (drop gcmStandardNonceSize bs) [] = Inl err"
  shows "DecryptStorageData lib cs bs =
           Inl (Wrapped ''unable to decrypt data'' (Wrapped ''decryption failure'' err))"
  using assms by (simp add: DecryptStorageData_def decrypt_keyed)

lemma decrypt_encrypt:
  assumes "AESKey cs = [] \<or>
           (valid_key (AESKey cs) \<and> aead_sound lib (AESKey cs)
            \<and> gcmStandardNonceSize \<le> length rnd)"
  shows "\<exists>enc. encrypt lib cs rnd bs = Inr enc \<and> decrypt lib cs enc = Inr bs"
proof (cases "AESKey cs = []")
  case True
  then show ?thesis by (simp add: encrypt_plain decrypt_plain)
next
  case False
  with assms have k: "valid_key (AESKey cs)" and s: "aead_sound lib (AESKey cs)"
    and r: "gcmStandardNonceSize \<le> length rnd" by auto
  define nonce where "nonce = take gcmStandardNonceSize rnd"
  have ln: "length nonce = gcmStandardNonceSize" using r by (simp add: nonce_def)
  define sealed where "sealed = aead_seal lib (AESKey cs) nonce bs []"
  have ls: "length sealed = length bs + gcmTagSize"
    and op: "aead_open lib (AESKey cs) nonce sealed [] = Inr bs"
    using s ln by (simp_all add: aead_sound_def sealed_def)
  have e: "encrypt lib cs rnd bs = Inr (nonce @ sealed)"
    using encrypt_keyed[OF k r] by (simp add: nonce_def sealed_def)
  have "aes_BlockSize \<le> length (nonce @ sealed)"
    using ln ls by (simp add: aes_BlockSize_def gcmStandardNonceSize_def gcmTagSize_def)
  from decrypt_keyed[OF k this] have "decrypt lib cs (nonce @ sealed) = Inr bs"
    using ln op by simp
  with e show ?thesis by simp
qed


lemma prefix_check:
  "(length bs < length p \<or> take (length p) bs \<noteq> p) = (\<not> prefix p bs)"
proof -
  have "prefix p bs = (take (length p) bs = p)"
    by (metis append_eq_conv_conj prefix_def append_take_drop_id)
  moreover have "take (length p) bs = p \<Longrightarrow> length p \<le> length bs"
    by (metis length_take min.cobounded1)
  ultimately show ?thesis by auto
qed

lemma DecryptStorageData_cases:
  "DecryptStorageData lib cs bs0 =
     (case decrypt lib cs bs0 of
        Inl err \<Rightarrow> Inl (Wrapped ''unable to decrypt data'' err)
      | Inr bs \<Rightarrow>
          if \<not> prefix (ValuePrefix cs) bs then Inl ErrInvalidDataFormat
          else (case json_Unmarshal lib (drop (length (ValuePrefix cs)) bs) of
                  Inl err \<Rightarrow> Inl (Wrapped ''unable to unmarshal result'' err)
                | Inr data \<Rightarrow> Inr data))"
  unfolding DecryptStorageData_def prefix_check by simp

subsection \<open>Round trip\<close>

text \<open>
  Claim C1. Codec round trip. For every representable record and every key
  configuration (no key, or a valid key whose cipher opens what it seals, with a
  random source that delivers a nonce), \<open>EncryptStorageData\<close> succeeds and
  \<open>DecryptStorageData\<close> of its output succeeds and returns the record.
\<close>

theorem codec_round_trip:
  assumes rep: "representable lib r"
    and cfg: "AESKey cs = [] \<or>
              (valid_key (AESKey cs) \<and> aead_sound lib (AESKey cs)
               \<and> gcmStandardNonceSize \<le> length rnd)"
  shows "\<exists>enc. EncryptStorageData lib cs rnd r = Inr enc
               \<and> DecryptStorageData lib cs enc = Inr r"
proof -
  from rep obtain j where m: "json_Marshal lib r = Inr j" and u: "json_Unmarshal lib j = Inr r"
    by (auto simp: representable_def split: sum.splits)
  from decrypt_encrypt[OF cfg] obtain enc where
    e: "encrypt lib cs rnd (ValuePrefix cs @ j) = Inr enc" and
    d: "decrypt lib cs enc = Inr (ValuePrefix cs @ j)" by blast
  have "EncryptStorageData lib cs rnd r = Inr enc"
    by (simp add: EncryptStorageData_def m e)
  moreover have "DecryptStorageData lib cs enc = Inr r"
    by (simp add: DecryptStorageData_cases d u)
  ultimately show ?thesis by blast
qed

theorem codec_round_trip_witness:
  "representable demo_lib demo_data
   \<and> valid_key (AESKey demo_cs) \<and> aead_sound demo_lib (AESKey demo_cs)
   \<and> gcmStandardNonceSize \<le> length demo_rnd
   \<and> (\<exists>enc. EncryptStorageData demo_lib demo_cs demo_rnd demo_data = Inr enc
            \<and> DecryptStorageData demo_lib demo_cs enc = Inr demo_data)"
proof -
  have v: "valid_key (AESKey demo_cs)"
    by (simp add: valid_key_def demo_cs_def demo_key_def)
  have n: "gcmStandardNonceSize \<le> length demo_rnd"
    by (simp add: gcmStandardNonceSize_def demo_rnd_def)
  show ?thesis
    using codec_round_trip [of demo_lib demo_data demo_cs demo_rnd] demo_repr demo_sound v n
    by simp
qed

subsection \<open>What encode writes\<close>

text \<open>
  Claim C4. Encode postcondition. With \<open>j\<close> the JSON of the record: without a
  key the output is exactly the value prefix followed by \<open>j\<close>; with a key, every
  output is a nonce of exactly the nonce size, drawn from the random source,
  followed by the sealed text (ciphertext and tag) of the prefixed JSON under that
  nonce; and with a valid key and enough random bytes there is an output.
\<close>

theorem encode_postcondition:
  assumes m: "json_Marshal lib r = Inr j"
  shows "(AESKey cs = [] \<longrightarrow>
            EncryptStorageData lib cs rnd r = Inr (ValuePrefix cs @ j))
       \<and> (AESKey cs \<noteq> [] \<longrightarrow>
            (\<forall>out. EncryptStorageData lib cs rnd r = Inr out \<longrightarrow>
               (\<exists>nonce. nonce = take gcmStandardNonceSize rnd
                  \<and> length nonce = gcmStandardNonceSize
                  \<and> out = nonce @ aead_seal lib (AESKey cs) nonce (ValuePrefix cs @ j) [])))
       \<and> (valid_key (AESKey cs) \<and> gcmStandardNonceSize \<le> length rnd \<longrightarrow>
            (\<exists>out. EncryptStorageData lib cs rnd r = Inr out))"
proof (intro conjI impI allI)
  assume "AESKey cs = []"
  then show "EncryptStorageData lib cs rnd r = Inr (ValuePrefix cs @ j)"
    by (simp add: EncryptStorageData_def m encrypt_plain)
next
  fix out
  assume k: "AESKey cs \<noteq> []" and e: "EncryptStorageData lib cs rnd r = Inr out"
  from e have enc: "encrypt lib cs rnd (ValuePrefix cs @ j) = Inr out"
    by (simp add: EncryptStorageData_def m)
  from enc k have v: "valid_key (AESKey cs)"
    by (auto simp: encrypt_def aes_NewCipher_def valid_key_def split: if_splits)
  from enc k have n: "gcmStandardNonceSize \<le> length rnd"
    by (auto simp: encrypt_def aes_ok [OF v] gcm_ok io_ReadFull_def split: if_splits)
  from enc show "\<exists>nonce. nonce = take gcmStandardNonceSize rnd
      \<and> length nonce = gcmStandardNonceSize
      \<and> out = nonce @ aead_seal lib (AESKey cs) nonce (ValuePrefix cs @ j) []"
    using n by (simp add: encrypt_keyed [OF v n])
next
  assume "valid_key (AESKey cs) \<and> gcmStandardNonceSize \<le> length rnd"
  then show "\<exists>out. EncryptStorageData lib cs rnd r = Inr out"
    by (simp add: EncryptStorageData_def m encrypt_keyed)
qed

theorem encode_postcondition_witness:
  "json_Marshal demo_lib demo_data = Inr [5, 1, 2, 3]
   \<and> AESKey demo_plain_cs = []
   \<and> EncryptStorageData demo_lib demo_plain_cs demo_rnd demo_data = Inr [99, 116, 5, 1, 2, 3]
   \<and> AESKey demo_cs \<noteq> []
   \<and> valid_key (AESKey demo_cs) \<and> gcmStandardNonceSize \<le> length demo_rnd
   \<and> EncryptStorageData demo_lib demo_cs demo_rnd demo_data =
       Inr (replicate 12 7 @ demo_seal demo_key (replicate 12 7) [99, 116, 5, 1, 2, 3] [])"
proof -
  have m: "json_Marshal demo_lib demo_data = Inr [5, 1, 2, 3]"
    by (simp add: demo_lib_def demo_Marshal_def demo_data_def)
  have v: "valid_key (AESKey demo_cs)"
    by (simp add: valid_key_def demo_cs_def demo_key_def)
  have n: "gcmStandardNonceSize \<le> length demo_rnd"
    by (simp add: gcmStandardNonceSize_def demo_rnd_def)
  have t: "take gcmStandardNonceSize demo_rnd = replicate 12 7"
    by (simp add: gcmStandardNonceSize_def demo_rnd_def eval_nat_numeral)
  have p: "AESKey demo_plain_cs = []" "ValuePrefix demo_plain_cs = [99, 116]"
       "ValuePrefix demo_cs = [99, 116]" "AESKey demo_cs = demo_key"
       "aead_seal demo_lib = demo_seal" "demo_key \<noteq> []"
    by (simp_all add: demo_plain_cs_def demo_cs_def demo_lib_def demo_key_def)
  from encode_postcondition [OF m, of demo_cs demo_rnd] v n p
  obtain out where o: "EncryptStorageData demo_lib demo_cs demo_rnd demo_data = Inr out"
    by auto
  with encode_postcondition [OF m, of demo_cs demo_rnd] p t
  have "out = replicate 12 7 @ demo_seal demo_key (replicate 12 7) [99, 116, 5, 1, 2, 3] []"
    by auto
  with o encode_postcondition [OF m, of demo_plain_cs demo_rnd] m v n p
  show ?thesis by simp
qed

subsection \<open>What decode rejects\<close>

text \<open>
  Claim C5. Prefix rejection. Whenever the content after decryption (the input
  itself when no key is configured) does not begin with the value prefix,
  \<open>DecryptStorageData\<close> fails with the format error, so it returns no record.
\<close>

theorem prefix_rejection:
  assumes "decrypt lib cs bs = Inr pt"
    and "\<not> prefix (ValuePrefix cs) pt"
  shows "DecryptStorageData lib cs bs = Inl ErrInvalidDataFormat"
  using assms by (simp add: DecryptStorageData_cases)

theorem prefix_rejection_witness:
  "decrypt demo_lib demo_plain_cs [98, 116, 5, 1] = Inr [98, 116, 5, 1]
   \<and> \<not> prefix (ValuePrefix demo_plain_cs) [98, 116, 5, 1]
   \<and> DecryptStorageData demo_lib demo_plain_cs [98, 116, 5, 1] = Inl ErrInvalidDataFormat"
proof -
  have d: "decrypt demo_lib demo_plain_cs [98, 116, 5, 1] = Inr [98, 116, 5, 1]"
    by (simp add: decrypt_def demo_plain_cs_def)
  have p: "\<not> prefix (ValuePrefix demo_plain_cs) [98, 116, 5, 1]"
    by (simp add: demo_plain_cs_def)
  show ?thesis using prefix_rejection [OF d p] d p by simp
qed

text \<open>
  Claim C6. Short-input rejection. With a key configured and a cipher that
  rejects a ciphertext shorter than its tag, every input shorter than nonce plus
  tag makes \<open>DecryptStorageData\<close> fail: with the invalid-contents error below
  the block size, with the authentication failure of \<open>Open\<close> from there on
  (or, only for a key of invalid length, with the key-size error).
\<close>

theorem short_input_rejection:
  assumes key: "AESKey cs \<noteq> []"
    and short: "length bs < gcmStandardNonceSize + gcmTagSize"
    and lib: "open_rejects_short lib (AESKey cs)"
  shows "\<exists>e. DecryptStorageData lib cs bs = Inl (Wrapped ''unable to decrypt data'' e)
           \<and> (e = ErrInvalidContents
              \<or> e = Wrapped ''decryption failure'' ErrOpen
              \<or> (\<not> valid_key (AESKey cs)
                  \<and> e = Wrapped ''unable to create AES cipher''
                        (KeySizeError (length (AESKey cs)))))"
proof -
  have "decrypt lib cs bs = Inl ErrInvalidContents
      \<or> decrypt lib cs bs = Inl (Wrapped ''decryption failure'' ErrOpen)
      \<or> (\<not> valid_key (AESKey cs)
          \<and> decrypt lib cs bs =
                Inl (Wrapped ''unable to create AES cipher'' (KeySizeError (length (AESKey cs)))))"
  proof (cases "length bs < aes_BlockSize")
    case True
    with key show ?thesis by (simp add: decrypt_def)
  next
    case long: False
    show ?thesis
    proof (cases "valid_key (AESKey cs)")
      case True
      have "length (drop gcmStandardNonceSize bs) < gcmTagSize"
        using short by (simp add: gcmStandardNonceSize_def gcmTagSize_def)
      with lib have "aead_open lib (AESKey cs) (take gcmStandardNonceSize bs)
                       (drop gcmStandardNonceSize bs) [] = Inl ErrOpen"
        unfolding open_rejects_short_def by blast
      with decrypt_keyed [OF True, of bs lib] long show ?thesis by simp
    next
      case False
      with key long show ?thesis
        by (simp add: decrypt_def aes_NewCipher_def valid_key_def)
    qed
  qed
  then show ?thesis by (auto simp: DecryptStorageData_def)
qed

theorem short_input_rejection_witness:
  "AESKey demo_cs \<noteq> []
   \<and> length (replicate 20 (0::byte)) < gcmStandardNonceSize + gcmTagSize
   \<and> open_rejects_short demo_lib (AESKey demo_cs)
   \<and> DecryptStorageData demo_lib demo_cs (replicate 20 0) =
       Inl (Wrapped ''unable to decrypt data'' (Wrapped ''decryption failure'' ErrOpen))"
proof -
  have k: "AESKey demo_cs \<noteq> []" by (simp add: demo_cs_def demo_key_def)
  have l: "length (replicate 20 (0::byte)) < gcmStandardNonceSize + gcmTagSize"
    by (simp add: gcmStandardNonceSize_def gcmTagSize_def)
  have v: "valid_key (AESKey demo_cs)"
    by (simp add: valid_key_def demo_cs_def demo_key_def)
  have d: "decrypt demo_lib demo_cs (replicate 20 0) = Inl (Wrapped ''decryption failure'' ErrOpen)"
    by (simp add: decrypt_keyed [OF v] aes_BlockSize_def gcmStandardNonceSize_def
          demo_lib_def demo_open_def)
  have "DecryptStorageData demo_lib demo_cs (replicate 20 0) =
       Inl (Wrapped ''unable to decrypt data'' (Wrapped ''decryption failure'' ErrOpen))"
    using short_input_rejection [OF k l demo_short] d by (simp add: DecryptStorageData_def)
  with k l demo_short show ?thesis by simp
qed

text \<open>
  Claim C8. Cleartext mode has no authentication failure. With an empty key,
  \<open>encrypt\<close> and \<open>decrypt\<close> return their input whatever its length, and
  \<open>DecryptStorageData\<close> ends in the format error, an unmarshalling error or a
  record, never in a decryption error.
\<close>

theorem cleartext_no_authentication_failure:
  assumes "AESKey cs = []"
  shows "encrypt lib cs rnd bs = Inr bs
       \<and> decrypt lib cs bs = Inr bs
       \<and> (DecryptStorageData lib cs bs = Inl ErrInvalidDataFormat
          \<or> (\<exists>e. DecryptStorageData lib cs bs = Inl (Wrapped ''unable to unmarshal result'' e))
          \<or> (\<exists>d. DecryptStorageData lib cs bs = Inr d))
       \<and> (\<forall>e. DecryptStorageData lib cs bs \<noteq> Inl (Wrapped ''unable to decrypt data'' e))"
  using assms
  by (auto simp: encrypt_plain decrypt_plain DecryptStorageData_def split: sum.splits)

theorem cleartext_no_authentication_failure_witness:
  "AESKey demo_plain_cs = []
   \<and> decrypt demo_lib demo_plain_cs [1, 2, 3] = Inr [1, 2, 3]
   \<and> DecryptStorageData demo_lib demo_plain_cs [1, 2, 3] = Inl ErrInvalidDataFormat"
proof -
  have k: "AESKey demo_plain_cs = []" by (simp add: demo_plain_cs_def)
  have "DecryptStorageData demo_lib demo_plain_cs [1, 2, 3] = Inl ErrInvalidDataFormat"
    by (simp add: DecryptStorageData_def decrypt_def demo_plain_cs_def)
  with cleartext_no_authentication_failure [OF k, of demo_lib "[]" "[1, 2, 3]"] k
  show ?thesis by simp
qed

text \<open>
  Claim C9. An invalid key never degrades to cleartext. With a key that is not
  empty and not 16, 24 or 32 bytes long, \<open>EncryptStorageData\<close> fails on every
  record (at marshalling or at the cipher's creation) and \<open>DecryptStorageData\<close>
  fails on every input.
\<close>

theorem invalid_key_never_cleartext:
  assumes "AESKey cs \<noteq> []" and "\<not> valid_key (AESKey cs)"
  shows "((\<exists>e. EncryptStorageData lib cs rnd r = Inl (Wrapped ''unable to marshal'' e))
          \<or> EncryptStorageData lib cs rnd r =
              Inl (Wrapped ''unable to create AES cipher'' (KeySizeError (length (AESKey cs)))))
       \<and> (DecryptStorageData lib cs bs =
            Inl (Wrapped ''unable to decrypt data'' ErrInvalidContents)
          \<or> DecryptStorageData lib cs bs =
              Inl (Wrapped ''unable to decrypt data''
                    (Wrapped ''unable to create AES cipher'' (KeySizeError (length (AESKey cs))))))"
  using assms
  by (auto simp: EncryptStorageData_def DecryptStorageData_def encrypt_def decrypt_def
        aes_NewCipher_def valid_key_def split: sum.splits)


theorem invalid_key_never_cleartext_witness:
  "AESKey demo_bad_cs \<noteq> [] \<and> \<not> valid_key (AESKey demo_bad_cs)
   \<and> EncryptStorageData demo_lib demo_bad_cs demo_rnd demo_data =
       Inl (Wrapped ''unable to create AES cipher'' (KeySizeError 3))
   \<and> DecryptStorageData demo_lib demo_bad_cs (replicate 40 0) =
       Inl (Wrapped ''unable to decrypt data''
             (Wrapped ''unable to create AES cipher'' (KeySizeError 3)))"
proof -
  have k: "AESKey demo_bad_cs \<noteq> []" and v: "\<not> valid_key (AESKey demo_bad_cs)"
    by (simp_all add: demo_bad_cs_def valid_key_def)
  have m: "json_Marshal demo_lib demo_data = Inr [5, 1, 2, 3]"
    by (simp add: demo_lib_def demo_Marshal_def demo_data_def)
  have e: "\<forall>e. EncryptStorageData demo_lib demo_bad_cs demo_rnd demo_data
              \<noteq> Inl (Wrapped ''unable to marshal'' e)"
    by (simp add: EncryptStorageData_def m encrypt_def demo_bad_cs_def aes_NewCipher_def)
  have d: "DecryptStorageData demo_lib demo_bad_cs (replicate 40 0)
              \<noteq> Inl (Wrapped ''unable to decrypt data'' ErrInvalidContents)"
    by (simp add: DecryptStorageData_def decrypt_def demo_bad_cs_def aes_NewCipher_def
          aes_BlockSize_def)
  have l: "length (AESKey demo_bad_cs) = 3" by (simp add: demo_bad_cs_def)
  show ?thesis
    using invalid_key_never_cleartext [OF k v, of demo_lib demo_rnd demo_data "replicate 40 0"]
          k v e d l
    by simp
qed

subsection \<open>Tamper detection\<close>

lemma sum_list_update_byte:
  "p < length xs \<Longrightarrow> sum_list (xs[p := b]) = sum_list xs + b - xs ! p" for xs :: bytes
proof (induction xs arbitrary: p)
  case Nil
  then show ?case by simp
next
  case (Cons x xs)
  then show ?case by (cases p) simp_all
qed

lemma sum_sealed_zero: "sum_list (nonce @ sum_seal key nonce pt []) = 0"
  by (simp add: sum_seal_def Let_def sum_list_replicate)

lemma length_sum_seal: "length (sum_seal key nonce pt []) = length pt + 16"
  by (simp add: sum_seal_def Let_def)

lemma sum_sound: "aead_sound sum_lib key"
  unfolding aead_sound_def
proof (intro allI impI conjI)
  fix nonce pt :: bytes
  show "length (aead_seal sum_lib key nonce pt []) = length pt + gcmTagSize"
    by (simp add: sum_lib_def length_sum_seal gcmTagSize_def)
  have "sum_open key nonce (sum_seal key nonce pt []) [] = Inr pt"
    using sum_sealed_zero [of nonce key pt]
    by (simp add: sum_open_def length_sum_seal) (simp add: sum_seal_def Let_def o_def)
  then show "aead_open sum_lib key nonce (aead_seal sum_lib key nonce pt []) [] = Inr pt"
    by (simp add: sum_lib_def)
qed

lemma sum_tamper: "open_rejects_tampered sum_lib key"
  unfolding open_rejects_tampered_def
proof (intro allI impI)
  fix nonce pt :: bytes and p b
  define enc where "enc = nonce @ aead_seal sum_lib key nonce pt []"
  assume "length nonce = gcmStandardNonceSize \<and> p < length enc \<and> b \<noteq> enc ! p"
  then have p: "p < length enc" and b: "b \<noteq> enc ! p" by simp_all
  have "sum_list enc = 0"
    by (simp add: enc_def sum_lib_def sum_sealed_zero del: sum_list_append)
  with p b have "sum_list (enc[p := b]) \<noteq> 0"
    by (simp add: sum_list_update_byte)
  then have "sum_list (take gcmStandardNonceSize (enc[p := b])
                @ drop gcmStandardNonceSize (enc[p := b])) \<noteq> 0"
    by (simp del: sum_list_append)
  then show "aead_open sum_lib key (take gcmStandardNonceSize (enc[p := b]))
               (drop gcmStandardNonceSize (enc[p := b])) [] = Inl ErrOpen"
    by (simp add: sum_lib_def sum_open_def del: sum_list_append)
qed

lemma encrypt_Inr:
  assumes "AESKey cs \<noteq> []" and "encrypt lib cs rnd bs = Inr out"
  shows "valid_key (AESKey cs) \<and> gcmStandardNonceSize \<le> length rnd
       \<and> out = take gcmStandardNonceSize rnd
                @ aead_seal lib (AESKey cs) (take gcmStandardNonceSize rnd) bs []"
proof -
  from assms have v: "valid_key (AESKey cs)"
    by (auto simp: encrypt_def aes_NewCipher_def valid_key_def split: if_splits)
  from assms have n: "gcmStandardNonceSize \<le> length rnd"
    by (auto simp: encrypt_def aes_ok [OF v] gcm_ok io_ReadFull_def split: if_splits)
  from assms(2) v n show ?thesis by (simp add: encrypt_keyed [OF v n])
qed

text \<open>
  Claim C2. Tamper detection. For a record encoded with a configured key, under
  a cipher that opens what it seals and rejects a change of one byte of nonce,
  ciphertext or tag, \<open>DecryptStorageData\<close> on the output with any one byte
  replaced by another value, at any position, fails with the decryption failure
  and so returns no record.
\<close>

theorem tamper_detection:
  assumes key: "AESKey cs \<noteq> []"
    and sound: "aead_sound lib (AESKey cs)"
    and auth: "open_rejects_tampered lib (AESKey cs)"
    and enc: "EncryptStorageData lib cs rnd r = Inr enc"
    and p: "p < length enc" and b: "b \<noteq> enc ! p"
  shows "DecryptStorageData lib cs (enc[p := b]) =
           Inl (Wrapped ''unable to decrypt data'' (Wrapped ''decryption failure'' ErrOpen))"
proof -
  from enc obtain j where e: "encrypt lib cs rnd (ValuePrefix cs @ j) = Inr enc"
    by (auto simp: EncryptStorageData_def split: sum.splits)
  define nonce where "nonce = take gcmStandardNonceSize rnd"
  define sealed where "sealed = aead_seal lib (AESKey cs) nonce (ValuePrefix cs @ j) []"
  from encrypt_Inr [OF key e] have v: "valid_key (AESKey cs)"
    and n: "gcmStandardNonceSize \<le> length rnd" and out: "enc = nonce @ sealed"
    by (simp_all add: nonce_def sealed_def)
  have ln: "length nonce = gcmStandardNonceSize" using n by (simp add: nonce_def)
  from sound ln have "length sealed = length (ValuePrefix cs @ j) + gcmTagSize"
    unfolding aead_sound_def sealed_def by blast
  with ln out have long: "aes_BlockSize \<le> length (enc[p := b])"
    by (simp add: aes_BlockSize_def gcmStandardNonceSize_def gcmTagSize_def)
  from auth ln p b have
    "aead_open lib (AESKey cs) (take gcmStandardNonceSize (enc[p := b]))
       (drop gcmStandardNonceSize (enc[p := b])) [] = Inl ErrOpen"
    unfolding open_rejects_tampered_def out sealed_def by blast
  then show ?thesis
    by (rule Open_rejection_is_decode_failure [OF v long])
qed

theorem tamper_detection_witness:
  "AESKey demo_cs \<noteq> []
   \<and> aead_sound sum_lib (AESKey demo_cs)
   \<and> open_rejects_tampered sum_lib (AESKey demo_cs)
   \<and> EncryptStorageData sum_lib demo_cs demo_rnd demo_data = Inr sum_enc
   \<and> 13 < length sum_enc \<and> 0 \<noteq> sum_enc ! 13
   \<and> DecryptStorageData sum_lib demo_cs (sum_enc[13 := 0]) =
       Inl (Wrapped ''unable to decrypt data'' (Wrapped ''decryption failure'' ErrOpen))"
proof -
  have k: "AESKey demo_cs \<noteq> []" by (simp add: demo_cs_def demo_key_def)
  have v: "valid_key (AESKey demo_cs)"
    by (simp add: valid_key_def demo_cs_def demo_key_def)
  have n: "gcmStandardNonceSize \<le> length demo_rnd"
    by (simp add: gcmStandardNonceSize_def demo_rnd_def)
  have m: "json_Marshal sum_lib demo_data = Inr [5, 1, 2, 3]"
    by (simp add: sum_lib_def demo_Marshal_def demo_data_def)
  have t: "take gcmStandardNonceSize demo_rnd = replicate 12 7"
    by (simp add: gcmStandardNonceSize_def demo_rnd_def eval_nat_numeral)
  have "replicate 12 7 @ sum_seal demo_key (replicate 12 7) [99, 116, 5, 1, 2, 3] [] = sum_enc"
    by (simp add: sum_seal_def sum_enc_def demo_key_def sum_list_replicate)
  then have s: "take gcmStandardNonceSize demo_rnd
             @ aead_seal sum_lib (AESKey demo_cs) (take gcmStandardNonceSize demo_rnd)
                 (ValuePrefix demo_cs @ [5, 1, 2, 3]) [] = sum_enc"
    unfolding t by (simp add: sum_lib_def demo_cs_def)
  have e: "EncryptStorageData sum_lib demo_cs demo_rnd demo_data = Inr sum_enc"
    using s by (simp add: EncryptStorageData_def m encrypt_keyed [OF v n])
  have p: "13 < length sum_enc" by (simp add: sum_enc_def)
  have b: "0 \<noteq> sum_enc ! 13" by (simp add: sum_enc_def nth_append)
  from tamper_detection [OF k sum_sound sum_tamper e p b] k sum_sound sum_tamper e p b
  show ?thesis by simp
qed

subsection \<open>Determinism\<close>

lemma DecryptStorageData_reads:
  assumes "AESKey cs' = AESKey cs" and "ValuePrefix cs' = ValuePrefix cs"
  shows "DecryptStorageData lib cs' bs = DecryptStorageData lib cs bs"
proof -
  have dec: "decrypt lib cs' bs = decrypt lib cs bs"
    by (simp add: decrypt_def assms)
  show ?thesis
    unfolding DecryptStorageData_def dec assms by (rule refl)
qed

lemma EncryptStorageData_fixed:
  assumes "\<not> (valid_key (AESKey cs) \<and> (\<exists>j. json_Marshal lib r = Inr j))"
  shows "EncryptStorageData lib cs rnd1 r = EncryptStorageData lib cs rnd2 r"
proof (cases "json_Marshal lib r")
  case (Inl e)
  then show ?thesis by (simp add: EncryptStorageData_def)
next
  case (Inr j)
  with assms have nv: "\<not> valid_key (AESKey cs)" by simp
  have "encrypt lib cs rnd1 bs = encrypt lib cs rnd2 bs" for bs
    using nv by (simp add: encrypt_def aes_NewCipher_def valid_key_def)
  then show ?thesis by (simp add: EncryptStorageData_def Inr)
qed

lemma EncryptStorageData_nonces:
  assumes key: "valid_key (AESKey cs)" and m: "json_Marshal lib r = Inr j"
    and r1: "gcmStandardNonceSize \<le> length rnd1"
    and r2: "gcmStandardNonceSize \<le> length rnd2"
    and ne: "take gcmStandardNonceSize rnd1 \<noteq> take gcmStandardNonceSize rnd2"
  shows "\<exists>enc1 enc2. EncryptStorageData lib cs rnd1 r = Inr enc1
            \<and> EncryptStorageData lib cs rnd2 r = Inr enc2 \<and> enc1 \<noteq> enc2"
proof -
  have "take gcmStandardNonceSize rnd1 @ x \<noteq> take gcmStandardNonceSize rnd2 @ y" for x y :: bytes
    using r1 r2 ne by (simp add: min_absorb2)
  then show ?thesis
    by (simp add: EncryptStorageData_def m encrypt_keyed [OF key r1] encrypt_keyed [OF key r2])
qed

lemma decode_of_encode:
  assumes key: "valid_key (AESKey cs)" and sound: "aead_sound lib (AESKey cs)"
    and m: "json_Marshal lib r = Inr j" and u: "json_Unmarshal lib j = Inr r"
    and rnd: "gcmStandardNonceSize \<le> length rnd"
    and e: "EncryptStorageData lib cs rnd r = Inr enc"
  shows "DecryptStorageData lib cs enc = Inr r"
proof -
  have "AESKey cs = [] \<or> (valid_key (AESKey cs) \<and> aead_sound lib (AESKey cs)
          \<and> gcmStandardNonceSize \<le> length rnd)"
    using key sound rnd by simp
  from decrypt_encrypt [OF this, of "ValuePrefix cs @ j"] e
  have "decrypt lib cs enc = Inr (ValuePrefix cs @ j)"
    by (auto simp: EncryptStorageData_def m)
  then show ?thesis by (simp add: DecryptStorageData_cases u)
qed

text \<open>
  Claim C10. Decode is deterministic, encode is not. In every configuration,
  with no key, with an invalid key or with a valid one, the result of
  \<open>DecryptStorageData\<close> is fixed by the key, the value prefix and the input: it
  reads no random source, and two runs that agree on these give the same record
  or the same error. The result of \<open>EncryptStorageData\<close> depends on the random
  source exactly when the key is valid and the record can be marshalled: two
  runs on the same record that draw different nonces both succeed with
  different byte sequences, and with a cipher that opens what it seals and a
  representable record both outputs decode to that record.
\<close>

theorem decode_deterministic_encode_randomized:
  "(\<forall>cs' bs. AESKey cs' = AESKey cs \<and> ValuePrefix cs' = ValuePrefix cs \<longrightarrow>
        DecryptStorageData lib cs' bs = DecryptStorageData lib cs bs)
   \<and> ((\<exists>rnd1 rnd2. EncryptStorageData lib cs rnd1 r \<noteq> EncryptStorageData lib cs rnd2 r)
        = (valid_key (AESKey cs) \<and> (\<exists>j. json_Marshal lib r = Inr j)))
   \<and> (\<forall>j rnd1 rnd2.
        valid_key (AESKey cs) \<and> json_Marshal lib r = Inr j
        \<and> gcmStandardNonceSize \<le> length rnd1 \<and> gcmStandardNonceSize \<le> length rnd2
        \<and> take gcmStandardNonceSize rnd1 \<noteq> take gcmStandardNonceSize rnd2 \<longrightarrow>
        (\<exists>enc1 enc2. EncryptStorageData lib cs rnd1 r = Inr enc1
           \<and> EncryptStorageData lib cs rnd2 r = Inr enc2 \<and> enc1 \<noteq> enc2
           \<and> (aead_sound lib (AESKey cs) \<and> json_Unmarshal lib j = Inr r \<longrightarrow>
                DecryptStorageData lib cs enc1 = Inr r
                \<and> DecryptStorageData lib cs enc2 = Inr r)))"
proof (intro conjI allI impI)
  fix cs' :: ConsulStorage and bs
  assume "AESKey cs' = AESKey cs \<and> ValuePrefix cs' = ValuePrefix cs"
  then have "AESKey cs' = AESKey cs" and "ValuePrefix cs' = ValuePrefix cs" by blast+
  then show "DecryptStorageData lib cs' bs = DecryptStorageData lib cs bs"
    by (rule DecryptStorageData_reads)
next
  show "(\<exists>rnd1 rnd2. EncryptStorageData lib cs rnd1 r \<noteq> EncryptStorageData lib cs rnd2 r)
        = (valid_key (AESKey cs) \<and> (\<exists>j. json_Marshal lib r = Inr j))"
  proof
    assume d: "\<exists>rnd1 rnd2. EncryptStorageData lib cs rnd1 r \<noteq> EncryptStorageData lib cs rnd2 r"
    show "valid_key (AESKey cs) \<and> (\<exists>j. json_Marshal lib r = Inr j)"
    proof (rule ccontr)
      assume "\<not> (valid_key (AESKey cs) \<and> (\<exists>j. json_Marshal lib r = Inr j))"
      then have "EncryptStorageData lib cs rnd1 r = EncryptStorageData lib cs rnd2 r"
        for rnd1 rnd2 by (rule EncryptStorageData_fixed)
      with d show False by blast
    qed
  next
    assume a: "valid_key (AESKey cs) \<and> (\<exists>j. json_Marshal lib r = Inr j)"
    then obtain j where key: "valid_key (AESKey cs)" and m: "json_Marshal lib r = Inr j"
      by blast
    define rnd1 :: bytes where "rnd1 = replicate gcmStandardNonceSize 0"
    define rnd2 :: bytes where "rnd2 = replicate gcmStandardNonceSize 1"
    have r1: "gcmStandardNonceSize \<le> length rnd1" and r2: "gcmStandardNonceSize \<le> length rnd2"
      by (simp_all add: rnd1_def rnd2_def)
    have ne: "take gcmStandardNonceSize rnd1 \<noteq> take gcmStandardNonceSize rnd2"
      by (simp add: rnd1_def rnd2_def gcmStandardNonceSize_def)
    from EncryptStorageData_nonces [OF key m r1 r2 ne] obtain enc1 enc2 where
      "EncryptStorageData lib cs rnd1 r = Inr enc1"
      "EncryptStorageData lib cs rnd2 r = Inr enc2" "enc1 \<noteq> enc2" by blast
    then have "EncryptStorageData lib cs rnd1 r \<noteq> EncryptStorageData lib cs rnd2 r"
      by simp
    then show "\<exists>rnd1 rnd2. EncryptStorageData lib cs rnd1 r \<noteq> EncryptStorageData lib cs rnd2 r"
      by blast
  qed
next
  fix j rnd1 rnd2 :: bytes
  assume a: "valid_key (AESKey cs) \<and> json_Marshal lib r = Inr j
        \<and> gcmStandardNonceSize \<le> length rnd1 \<and> gcmStandardNonceSize \<le> length rnd2
        \<and> take gcmStandardNonceSize rnd1 \<noteq> take gcmStandardNonceSize rnd2"
  then have key: "valid_key (AESKey cs)" and m: "json_Marshal lib r = Inr j"
    and r1: "gcmStandardNonceSize \<le> length rnd1" and r2: "gcmStandardNonceSize \<le> length rnd2"
    and ne: "take gcmStandardNonceSize rnd1 \<noteq> take gcmStandardNonceSize rnd2"
    by simp_all
  from EncryptStorageData_nonces [OF key m r1 r2 ne] obtain enc1 enc2 where
    e1: "EncryptStorageData lib cs rnd1 r = Inr enc1" and
    e2: "EncryptStorageData lib cs rnd2 r = Inr enc2" and d: "enc1 \<noteq> enc2" by blast
  have "DecryptStorageData lib cs enc1 = Inr r \<and> DecryptStorageData lib cs enc2 = Inr r"
    if "aead_sound lib (AESKey cs) \<and> json_Unmarshal lib j = Inr r"
    using that decode_of_encode [OF key _ m _ r1 e1] decode_of_encode [OF key _ m _ r2 e2]
    by simp
  with e1 e2 d show "\<exists>enc1 enc2. EncryptStorageData lib cs rnd1 r = Inr enc1
           \<and> EncryptStorageData lib cs rnd2 r = Inr enc2 \<and> enc1 \<noteq> enc2
           \<and> (aead_sound lib (AESKey cs) \<and> json_Unmarshal lib j = Inr r \<longrightarrow>
                DecryptStorageData lib cs enc1 = Inr r
                \<and> DecryptStorageData lib cs enc2 = Inr r)"
    by blast
qed


theorem decode_deterministic_encode_randomized_witness:
  "AESKey (demo_plain_cs\<lparr>Prefix := ''other''\<rparr>) = AESKey demo_plain_cs
   \<and> ValuePrefix (demo_plain_cs\<lparr>Prefix := ''other''\<rparr>) = ValuePrefix demo_plain_cs
   \<and> DecryptStorageData demo_lib (demo_plain_cs\<lparr>Prefix := ''other''\<rparr>) [1, 2, 3]
       = DecryptStorageData demo_lib demo_plain_cs [1, 2, 3]
   \<and> AESKey (demo_bad_cs\<lparr>Prefix := ''other''\<rparr>) = AESKey demo_bad_cs
   \<and> ValuePrefix (demo_bad_cs\<lparr>Prefix := ''other''\<rparr>) = ValuePrefix demo_bad_cs
   \<and> DecryptStorageData demo_lib (demo_bad_cs\<lparr>Prefix := ''other''\<rparr>) [1, 2, 3]
       = DecryptStorageData demo_lib demo_bad_cs [1, 2, 3]
   \<and> \<not> valid_key (AESKey demo_plain_cs)
   \<and> EncryptStorageData demo_lib demo_plain_cs demo_rnd demo_data
       = EncryptStorageData demo_lib demo_plain_cs (replicate 12 8) demo_data
   \<and> valid_key (AESKey demo_cs)
   \<and> json_Marshal demo_lib demo_data = Inr [5, 1, 2, 3]
   \<and> gcmStandardNonceSize \<le> length demo_rnd
   \<and> gcmStandardNonceSize \<le> length (replicate 12 (8::byte))
   \<and> take gcmStandardNonceSize demo_rnd \<noteq> take gcmStandardNonceSize (replicate 12 8)
   \<and> aead_sound demo_lib (AESKey demo_cs)
   \<and> json_Unmarshal demo_lib [5, 1, 2, 3] = Inr demo_data
   \<and> (\<exists>enc1 enc2. EncryptStorageData demo_lib demo_cs demo_rnd demo_data = Inr enc1
         \<and> EncryptStorageData demo_lib demo_cs (replicate 12 8) demo_data = Inr enc2
         \<and> enc1 \<noteq> enc2
         \<and> DecryptStorageData demo_lib demo_cs enc1 = Inr demo_data
         \<and> DecryptStorageData demo_lib demo_cs enc2 = Inr demo_data)"
proof -
  have p: "AESKey (demo_plain_cs\<lparr>Prefix := ''other''\<rparr>) = AESKey demo_plain_cs"
      "ValuePrefix (demo_plain_cs\<lparr>Prefix := ''other''\<rparr>) = ValuePrefix demo_plain_cs"
    and q: "AESKey (demo_bad_cs\<lparr>Prefix := ''other''\<rparr>) = AESKey demo_bad_cs"
      "ValuePrefix (demo_bad_cs\<lparr>Prefix := ''other''\<rparr>) = ValuePrefix demo_bad_cs"
    by simp_all
  have nv: "\<not> valid_key (AESKey demo_plain_cs)"
    by (simp add: valid_key_def demo_plain_cs_def)
  have v: "valid_key (AESKey demo_cs)"
    by (simp add: valid_key_def demo_cs_def demo_key_def)
  have m: "json_Marshal demo_lib demo_data = Inr [5, 1, 2, 3]"
    and u: "json_Unmarshal demo_lib [5, 1, 2, 3] = Inr demo_data"
    by (simp_all add: demo_lib_def demo_Marshal_def demo_Unmarshal_def demo_data_def)
  have r1: "gcmStandardNonceSize \<le> length demo_rnd"
    and r2: "gcmStandardNonceSize \<le> length (replicate 12 (8::byte))"
    by (simp_all add: gcmStandardNonceSize_def demo_rnd_def)
  have ne: "take gcmStandardNonceSize demo_rnd \<noteq> take gcmStandardNonceSize (replicate 12 8)"
    by (simp add: gcmStandardNonceSize_def demo_rnd_def eval_nat_numeral)
  note plain = decode_deterministic_encode_randomized
                 [where cs = demo_plain_cs and lib = demo_lib and r = demo_data]
  note bad = decode_deterministic_encode_randomized
                 [where cs = demo_bad_cs and lib = demo_lib and r = demo_data]
  note keyed = decode_deterministic_encode_randomized
                 [where cs = demo_cs and lib = demo_lib and r = demo_data]
  have d1: "DecryptStorageData demo_lib (demo_plain_cs\<lparr>Prefix := ''other''\<rparr>) [1, 2, 3]
       = DecryptStorageData demo_lib demo_plain_cs [1, 2, 3]"
    using plain p by blast
  have d2: "DecryptStorageData demo_lib (demo_bad_cs\<lparr>Prefix := ''other''\<rparr>) [1, 2, 3]
       = DecryptStorageData demo_lib demo_bad_cs [1, 2, 3]"
    using bad q by blast
  have e0: "EncryptStorageData demo_lib demo_plain_cs demo_rnd demo_data
       = EncryptStorageData demo_lib demo_plain_cs (replicate 12 8) demo_data"
    using plain nv by blast
  have e1: "\<exists>enc1 enc2. EncryptStorageData demo_lib demo_cs demo_rnd demo_data = Inr enc1
         \<and> EncryptStorageData demo_lib demo_cs (replicate 12 8) demo_data = Inr enc2
         \<and> enc1 \<noteq> enc2
         \<and> DecryptStorageData demo_lib demo_cs enc1 = Inr demo_data
         \<and> DecryptStorageData demo_lib demo_cs enc2 = Inr demo_data"
    using keyed v m u r1 r2 ne demo_sound [of "AESKey demo_cs"] by blast
  show ?thesis
    using p q nv v m u r1 r2 ne demo_sound [of "AESKey demo_cs"] d1 d2 e0 e1 by blast
qed

section \<open>Properties of the listing\<close>

lemma split_path_not_Nil: "split_path s \<noteq> []"
  by (induction s) (auto split: list.splits)

lemma split_path_append:
  "split_path (u @ CHR ''/'' # v) = split_path u @ split_path v"
proof (induction u)
  case Nil
  then show ?case by simp
next
  case (Cons c u)
  obtain seg segs where s: "split_path u = seg # segs"
    using split_path_not_Nil [of u] by (cases "split_path u") auto
  with Cons show ?case by simp
qed

lemma split_path_segment: "CHR ''/'' \<notin> set s \<Longrightarrow> split_path s = [s]"
  by (induction s) auto

lemma join_path_Cons: "join_path ((c # seg) # segs) = c # join_path (seg # segs)"
  by (cases segs) simp_all

lemma join_split_path: "join_path (split_path s) = s"
proof (induction s)
  case Nil
  then show ?case by simp
next
  case (Cons c s)
  obtain seg segs where sp: "split_path s = seg # segs"
    using split_path_not_Nil [of s] by (cases "split_path s") auto
  show ?case
  proof (cases "c = CHR ''/''")
    case True
    with Cons sp show ?thesis by simp
  next
    case False
    with Cons sp show ?thesis by (simp add: join_path_Cons)
  qed
qed

lemma join_path_snoc: "segs \<noteq> [] \<Longrightarrow> join_path (segs @ [b]) = join_path segs @ CHR ''/'' # b"
  by (induction segs rule: join_path.induct) simp_all

lemma child_of_descendant:
  assumes "CHR ''/'' \<notin> set b"
  shows "join_path (take (length (split_path a) + 1) (split_path (a @ ''/'' @ b @ ''/'' @ x)))
         = a @ ''/'' @ b"
proof -
  have "split_path (a @ ''/'' @ b @ ''/'' @ x) = (split_path a @ [b]) @ split_path x"
    using assms by (simp add: split_path_append split_path_segment)
  then have "take (length (split_path a) + 1) (split_path (a @ ''/'' @ b @ ''/'' @ x))
             = split_path a @ [b]"
    by simp
  then show ?thesis
    by (simp add: join_path_snoc split_path_not_Nil join_split_path)
qed

lemma split_path_segments: "seg \<in> set (split_path s) \<Longrightarrow> CHR ''/'' \<notin> set seg"
proof (induction s arbitrary: seg)
  case Nil
  then show ?case by simp
next
  case (Cons c s)
  obtain t ts where sp: "split_path s = t # ts"
    using split_path_not_Nil [of s] by (cases "split_path s") auto
  with Cons.prems have "seg = [] \<or> seg \<in> set (split_path s)
      \<or> (c \<noteq> CHR ''/'' \<and> seg = c # t)"
    by (auto split: if_splits)
  moreover have "CHR ''/'' \<notin> set t" using Cons.IH [of t] sp by simp
  ultimately show ?case using Cons.IH [of seg] by auto
qed

text \<open>
  The listing returns descendants only: a recursive result continues the prefix
  with the separator, and a non-recursive result is the prefix, the separator
  and one segment.
\<close>

lemma List_keys_recursive_descendant:
  "k \<in> set (List_keys cs kv pfx True) \<Longrightarrow> prefix (pfx @ ''/'') k"
  by (simp add: List_keys_def)

lemma List_keys_child_segment:
  assumes "k \<in> set (List_keys cs kv pfx False)"
  shows "\<exists>seg. CHR ''/'' \<notin> set seg \<and> k = pfx @ ''/'' @ seg"
proof -
  from assms obtain k' where p: "prefix (pfx @ ''/'') k'"
    and k: "k = join_path (take (length (split_path pfx) + 1) (split_path k'))"
    by (auto simp: List_keys_def)
  from p obtain rest where k': "k' = pfx @ CHR ''/'' # rest"
    by (auto simp: prefix_def)
  obtain seg segs where sp: "split_path rest = seg # segs"
    using split_path_not_Nil [of rest] by (cases "split_path rest") auto
  then have "CHR ''/'' \<notin> set seg" using split_path_segments [of seg rest] by simp
  moreover have "k = pfx @ ''/'' @ seg"
    by (simp add: k k' split_path_append sp join_path_snoc split_path_not_Nil join_split_path)
  ultimately show ?thesis by blast
qed

lemma toLogical_toPhysical: "toLogical ns (toPhysical ns k) = Some k"
  by (simp add: toLogical_def toPhysical_def)

lemma Store_keys:
  "Store lib cs rnd now kv key payload = Inr kv' \<Longrightarrow>
   \<exists>enc. kv' = kv_put (toPhysical (Prefix cs) key) enc kv"
  by (auto simp: Store_def split: sum.splits)

text \<open>
  Claim C7. Listing one directory level. For every path \<open>a\<close>, every segment
  \<open>b\<close> without separator and all distinct leaves \<open>x\<close>, \<open>y\<close>, \<open>z\<close>: after
  \<open>a/b/x\<close>, \<open>a/b/y\<close> and \<open>a/b/z\<close> are stored into an empty store, the
  recursive listing of \<open>a/b\<close> is exactly these three keys and the non-recursive
  listing of \<open>a\<close> is the single synthesized segment \<open>a/b\<close>.
\<close>

theorem list_one_level:
  assumes seg: "CHR ''/'' \<notin> set b"
    and leaves: "distinct [x, y, z]"
    and s1: "Store lib cs rnd1 t1 [] (a @ ''/'' @ b @ ''/'' @ x) v1 = Inr kv1"
    and s2: "Store lib cs rnd2 t2 kv1 (a @ ''/'' @ b @ ''/'' @ y) v2 = Inr kv2"
    and s3: "Store lib cs rnd3 t3 kv2 (a @ ''/'' @ b @ ''/'' @ z) v3 = Inr kv3"
  shows "set (List_keys cs kv3 (a @ ''/'' @ b) True)
           = {a @ ''/'' @ b @ ''/'' @ x, a @ ''/'' @ b @ ''/'' @ y, a @ ''/'' @ b @ ''/'' @ z}
       \<and> length (List_keys cs kv3 (a @ ''/'' @ b) True) = 3
       \<and> List_keys cs kv3 a False = [a @ ''/'' @ b]"
proof -
  define ns where "ns = Prefix cs"
  define kx where "kx = a @ ''/'' @ b @ ''/'' @ x"
  define ky where "ky = a @ ''/'' @ b @ ''/'' @ y"
  define kz where "kz = a @ ''/'' @ b @ ''/'' @ z"
  have ne: "kx \<noteq> ky" "kx \<noteq> kz" "ky \<noteq> kz"
    using leaves by (simp_all add: kx_def ky_def kz_def)
  then have pne: "toPhysical ns kx \<noteq> toPhysical ns ky" "toPhysical ns kx \<noteq> toPhysical ns kz"
      "toPhysical ns ky \<noteq> toPhysical ns kz"
    by (simp_all add: toPhysical_def)
  obtain e1 e2 e3 where
    kv3: "kv3 = [(toPhysical ns kx, e1), (toPhysical ns ky, e2), (toPhysical ns kz, e3)]"
    using s1 s2 s3 pne unfolding kx_def [symmetric] ky_def [symmetric] kz_def [symmetric]
    by (auto simp: ns_def dest!: Store_keys)
  define ab where "ab = a @ ''/'' @ b"
  have under_ab: "prefix (toPhysical ns ab) (toPhysical ns kx)"
      "prefix (toPhysical ns ab) (toPhysical ns ky)" "prefix (toPhysical ns ab) (toPhysical ns kz)"
    and desc_ab: "prefix (ab @ ''/'') kx" "prefix (ab @ ''/'') ky" "prefix (ab @ ''/'') kz"
    and under_a: "prefix (toPhysical ns a) (toPhysical ns kx)"
      "prefix (toPhysical ns a) (toPhysical ns ky)" "prefix (toPhysical ns a) (toPhysical ns kz)"
    and desc_a: "prefix (a @ ''/'') kx" "prefix (a @ ''/'') ky" "prefix (a @ ''/'') kz"
    by (simp_all add: toPhysical_def ab_def kx_def ky_def kz_def)
  have "List_keys cs kv3 ab True = [kx, ky, kz]"
    unfolding List_keys_def Let_def kv_list_def ns_def [symmetric] kv3
    using under_ab desc_ab by (simp add: List.map_filter_simps toLogical_toPhysical)
  then have rec: "List_keys cs kv3 (a @ ''/'' @ b) True = [kx, ky, kz]"
    by (simp add: ab_def)
  have "join_path (take (length (split_path a) + 1) (split_path kx)) = ab"
      "join_path (take (length (split_path a) + 1) (split_path ky)) = ab"
      "join_path (take (length (split_path a) + 1) (split_path kz)) = ab"
    unfolding kx_def ky_def kz_def ab_def by (rule child_of_descendant [OF seg])+
  then have child: "join_path (take (Suc (length (split_path a))) (split_path kx)) = ab"
      "join_path (take (Suc (length (split_path a))) (split_path ky)) = ab"
      "join_path (take (Suc (length (split_path a))) (split_path kz)) = ab"
    by simp_all
  have "List_keys cs kv3 a False = [ab]"
    unfolding List_keys_def Let_def kv_list_def ns_def [symmetric] kv3
    using under_a desc_a by (simp add: List.map_filter_simps toLogical_toPhysical child)
  then have nonrec: "List_keys cs kv3 a False = [a @ ''/'' @ b]"
    by (simp add: ab_def)
  show ?thesis
    using rec nonrec ne by (simp add: kx_def ky_def kz_def)
qed


theorem list_one_level_witness:
  "CHR ''/'' \<notin> set ''example.com''
   \<and> distinct [''example.com.crt'', ''example.com.key'', ''example.com.json'']
   \<and> Store demo_lib demo_plain_cs [] 5 []
         ''acme/example.com/sites/example.com/example.com.crt'' [1] =
       Inr [(''consultlstest/acme/example.com/sites/example.com/example.com.crt'',
             [99, 116, 5, 1])]
   \<and> Store demo_lib demo_plain_cs [] 6
         [(''consultlstest/acme/example.com/sites/example.com/example.com.crt'',
           [99, 116, 5, 1])]
         ''acme/example.com/sites/example.com/example.com.key'' [2] =
       Inr [(''consultlstest/acme/example.com/sites/example.com/example.com.crt'',
             [99, 116, 5, 1]),
            (''consultlstest/acme/example.com/sites/example.com/example.com.key'',
             [99, 116, 6, 2])]
   \<and> Store demo_lib demo_plain_cs [] 7
         [(''consultlstest/acme/example.com/sites/example.com/example.com.crt'',
           [99, 116, 5, 1]),
          (''consultlstest/acme/example.com/sites/example.com/example.com.key'',
           [99, 116, 6, 2])]
         ''acme/example.com/sites/example.com/example.com.json'' [3] =
       Inr [(''consultlstest/acme/example.com/sites/example.com/example.com.crt'',
             [99, 116, 5, 1]),
            (''consultlstest/acme/example.com/sites/example.com/example.com.key'',
             [99, 116, 6, 2]),
            (''consultlstest/acme/example.com/sites/example.com/example.com.json'',
             [99, 116, 7, 3])]
   \<and> length (List_keys demo_plain_cs
         [(''consultlstest/acme/example.com/sites/example.com/example.com.crt'',
           [99, 116, 5, 1]),
          (''consultlstest/acme/example.com/sites/example.com/example.com.key'',
           [99, 116, 6, 2]),
          (''consultlstest/acme/example.com/sites/example.com/example.com.json'',
           [99, 116, 7, 3])]
         ''acme/example.com/sites/example.com'' True) = 3
   \<and> List_keys demo_plain_cs
         [(''consultlstest/acme/example.com/sites/example.com/example.com.crt'',
           [99, 116, 5, 1]),
          (''consultlstest/acme/example.com/sites/example.com/example.com.key'',
           [99, 116, 6, 2]),
          (''consultlstest/acme/example.com/sites/example.com/example.com.json'',
           [99, 116, 7, 3])]
         ''acme/example.com/sites'' False = [''acme/example.com/sites/example.com'']"
proof -
  have seg: "CHR ''/'' \<notin> set ''example.com''" by simp
  have leaves: "distinct [''example.com.crt'', ''example.com.key'', ''example.com.json'']"
    by simp
  have s1: "Store demo_lib demo_plain_cs [] 5 []
         ''acme/example.com/sites/example.com/example.com.crt'' [1] =
       Inr [(''consultlstest/acme/example.com/sites/example.com/example.com.crt'',
             [99, 116, 5, 1])]"
    by (simp add: Store_def EncryptStorageData_def encrypt_def demo_lib_def demo_Marshal_def
          demo_plain_cs_def toPhysical_def)
  have s2: "Store demo_lib demo_plain_cs [] 6
         [(''consultlstest/acme/example.com/sites/example.com/example.com.crt'',
           [99, 116, 5, 1])]
         ''acme/example.com/sites/example.com/example.com.key'' [2] =
       Inr [(''consultlstest/acme/example.com/sites/example.com/example.com.crt'',
             [99, 116, 5, 1]),
            (''consultlstest/acme/example.com/sites/example.com/example.com.key'',
             [99, 116, 6, 2])]"
    by (simp add: Store_def EncryptStorageData_def encrypt_def demo_lib_def demo_Marshal_def
          demo_plain_cs_def toPhysical_def)
  have s3: "Store demo_lib demo_plain_cs [] 7
         [(''consultlstest/acme/example.com/sites/example.com/example.com.crt'',
           [99, 116, 5, 1]),
          (''consultlstest/acme/example.com/sites/example.com/example.com.key'',
           [99, 116, 6, 2])]
         ''acme/example.com/sites/example.com/example.com.json'' [3] =
       Inr [(''consultlstest/acme/example.com/sites/example.com/example.com.crt'',
             [99, 116, 5, 1]),
            (''consultlstest/acme/example.com/sites/example.com/example.com.key'',
             [99, 116, 6, 2]),
            (''consultlstest/acme/example.com/sites/example.com/example.com.json'',
             [99, 116, 7, 3])]"
    by (simp add: Store_def EncryptStorageData_def encrypt_def demo_lib_def demo_Marshal_def
          demo_plain_cs_def toPhysical_def)
  from list_one_level [where a = "''acme/example.com/sites''" and b = "''example.com''"
      and x = "''example.com.crt''" and y = "''example.com.key''" and z = "''example.com.json''",
      OF seg leaves] s1 s2 s3
  have "length (List_keys demo_plain_cs
         [(''consultlstest/acme/example.com/sites/example.com/example.com.crt'',
           [99, 116, 5, 1]),
          (''consultlstest/acme/example.com/sites/example.com/example.com.key'',
           [99, 116, 6, 2]),
          (''consultlstest/acme/example.com/sites/example.com/example.com.json'',
           [99, 116, 7, 3])]
         ''acme/example.com/sites/example.com'' True) = 3
   \<and> List_keys demo_plain_cs
         [(''consultlstest/acme/example.com/sites/example.com/example.com.crt'',
           [99, 116, 5, 1]),
          (''consultlstest/acme/example.com/sites/example.com/example.com.key'',
           [99, 116, 6, 2]),
          (''consultlstest/acme/example.com/sites/example.com/example.com.json'',
           [99, 116, 7, 3])]
         ''acme/example.com/sites'' False = [''acme/example.com/sites/example.com'']"
    by simp
  with seg leaves s1 s2 s3 show ?thesis by blast
qed

section \<open>Properties of the distributed lock\<close>

lemma lock_inv_init: "lock_inv lock_init"
  by (simp add: lock_inv_def lock_init_def)

lemma handle_set_handle:
  "handle (set_handle i k st w) i' k' = (if i' = i \<and> k' = k then st else handle w i' k')"
  by (simp add: set_handle_def)

lemma kv_lock_set_handle: "kv_lock (set_handle i k st w) = kv_lock w"
  by (simp add: set_handle_def)

lemma try_acquire_free:
  "kv_lock w k = None \<Longrightarrow>
   try_acquire i k w = set_handle i k Acquired (w\<lparr>kv_lock := (kv_lock w)(k \<mapsto> i)\<rparr>)"
  by (simp add: try_acquire_def casPut_def)

lemma try_acquire_held:
  "kv_lock w k = Some h \<Longrightarrow> try_acquire i k w = set_handle i k Contended w"
  by (simp add: try_acquire_def casPut_def)

lemma lock_invD1: "lock_inv w \<Longrightarrow> kv_lock w k = Some i \<Longrightarrow> handle w i k = Acquired"
  unfolding lock_inv_def by blast

lemma lock_invD2: "lock_inv w \<Longrightarrow> handle w i k = Acquired \<Longrightarrow> kv_lock w k = Some i"
  unfolding lock_inv_def by blast

lemma lock_inv_set_handle:
  assumes inv: "lock_inv w" and h: "handle w i k \<noteq> Acquired" and st: "st \<noteq> Acquired"
  shows "lock_inv (set_handle i k st w)"
  unfolding lock_inv_def handle_set_handle kv_lock_set_handle
proof (intro conjI allI impI)
  fix i' k'
  assume "kv_lock w k' = Some i'"
  then have a: "handle w i' k' = Acquired" by (rule lock_invD1 [OF inv])
  with h have "\<not> (i' = i \<and> k' = k)" by auto
  with a show "(if i' = i \<and> k' = k then st else handle w i' k') = Acquired" by auto
next
  fix i' k'
  assume "(if i' = i \<and> k' = k then st else handle w i' k') = Acquired"
  with st have "handle w i' k' = Acquired" by (simp split: if_splits)
  then show "kv_lock w k' = Some i'" by (rule lock_invD2 [OF inv])
qed

lemma lock_inv_try_acquire:
  assumes inv: "lock_inv w" and h: "handle w i k \<noteq> Acquired"
  shows "lock_inv (try_acquire i k w)"
proof (cases "kv_lock w k")
  case None
  have free: "handle w i' k \<noteq> Acquired" for i'
  proof
    assume "handle w i' k = Acquired"
    then have "kv_lock w k = Some i'" by (rule lock_invD2 [OF inv])
    with None show False by simp
  qed
  show ?thesis
    unfolding try_acquire_free [OF None] lock_inv_def handle_set_handle kv_lock_set_handle
  proof (intro conjI allI impI)
    fix i' k'
    assume a: "kv_lock (w\<lparr>kv_lock := (kv_lock w)(k \<mapsto> i)\<rparr>) k' = Some i'"
    show "(if i' = i \<and> k' = k then Acquired
           else handle (w\<lparr>kv_lock := (kv_lock w)(k \<mapsto> i)\<rparr>) i' k') = Acquired"
    proof (cases "k' = k")
      case True
      with a have "i' = i" by simp
      with True show ?thesis by simp
    next
      case False
      with a have "kv_lock w k' = Some i'" by simp
      then have "handle w i' k' = Acquired" by (rule lock_invD1 [OF inv])
      then show ?thesis by simp
    qed
  next
    fix i' k'
    assume a: "(if i' = i \<and> k' = k then Acquired
           else handle (w\<lparr>kv_lock := (kv_lock w)(k \<mapsto> i)\<rparr>) i' k') = Acquired"
    show "kv_lock (w\<lparr>kv_lock := (kv_lock w)(k \<mapsto> i)\<rparr>) k' = Some i'"
    proof (cases "i' = i \<and> k' = k")
      case True
      then show ?thesis by simp
    next
      case False
      with a have b: "handle w i' k' = Acquired" by simp
      with free have "k' \<noteq> k" by auto
      with lock_invD2 [OF inv b] show ?thesis by simp
    qed
  qed
next
  case (Some h')
  show ?thesis
    unfolding try_acquire_held [OF Some]
    by (rule lock_inv_set_handle [OF inv h]) simp
qed

lemma lock_inv_release:
  assumes inv: "lock_inv w" and h: "handle w i k = Acquired"
  shows "lock_inv (release i k w)"
  unfolding release_def lock_inv_def handle_set_handle kv_lock_set_handle
proof (intro conjI allI impI)
  fix i' k'
  assume a: "kv_lock (w\<lparr>kv_lock := (kv_lock w)(k := None)\<rparr>) k' = Some i'"
  then have ne: "k' \<noteq> k" by (auto split: if_splits)
  with a have "kv_lock w k' = Some i'" by simp
  then have "handle w i' k' = Acquired" by (rule lock_invD1 [OF inv])
  with ne show "(if i' = i \<and> k' = k then Unlocked
         else handle (w\<lparr>kv_lock := (kv_lock w)(k := None)\<rparr>) i' k') = Acquired"
    by simp
next
  fix i' k'
  assume a: "(if i' = i \<and> k' = k then Unlocked
         else handle (w\<lparr>kv_lock := (kv_lock w)(k := None)\<rparr>) i' k') = Acquired"
  then have ne: "\<not> (i' = i \<and> k' = k)" by (auto split: if_splits)
  with a have b: "handle w i' k' = Acquired" by simp
  have "k' \<noteq> k"
  proof
    assume "k' = k"
    with b have "kv_lock w k = Some i'" using lock_invD2 [OF inv] by simp
    moreover have "kv_lock w k = Some i" by (rule lock_invD2 [OF inv h])
    ultimately have "i' = i" by simp
    with \<open>k' = k\<close> ne show False by simp
  qed
  with lock_invD2 [OF inv b]
  show "kv_lock (w\<lparr>kv_lock := (kv_lock w)(k := None)\<rparr>) k' = Some i'" by simp
qed

lemma lock_inv_step: "lock_inv w \<Longrightarrow> lock_inv (lock_step w e)"
proof (cases e)
  case (Lock_call i k)
  assume "lock_inv w"
  then show ?thesis unfolding Lock_call by (simp add: lock_inv_try_acquire)
next
  case (Lock_retry i k)
  assume "lock_inv w"
  then show ?thesis unfolding Lock_retry by (simp add: lock_inv_try_acquire)
next
  case (Lock_deadline i k)
  assume "lock_inv w"
  then show ?thesis unfolding Lock_deadline by (simp add: lock_inv_set_handle)
next
  case (Unlock_call i k)
  assume "lock_inv w"
  then show ?thesis unfolding Unlock_call by (simp add: lock_inv_release)
next
  case (Session_expiry i k)
  assume "lock_inv w"
  then show ?thesis unfolding Session_expiry by (simp add: lock_inv_release)
qed

lemma lock_inv_run: "lock_inv w \<Longrightarrow> lock_inv (lock_run w evs)"
  unfolding lock_run_def
  by (induction evs arbitrary: w) (simp_all add: lock_inv_step)

lemma handle_release:
  "handle (release i k w) i' k' = (if i' = i \<and> k' = k then Unlocked else handle w i' k')"
  by (simp add: release_def handle_set_handle)

lemma wait_try_acquire:
  assumes held: "kv_lock w k = Some i" and ne: "i \<noteq> j"
    and hi: "handle w i k = Acquired" and hj: "handle w j k = Contended"
    and h: "handle w i' k' \<noteq> Acquired"
  shows "handle (try_acquire i' k' w) i k = Acquired
       \<and> handle (try_acquire i' k' w) j k = Contended"
proof (cases "kv_lock w k'")
  case None
  with held have "k' \<noteq> k" by auto
  then show ?thesis using hi hj by (simp add: try_acquire_free [OF None] handle_set_handle)
next
  case (Some h')
  have n: "\<not> (i = i' \<and> k = k')" using h hi by auto
  have "handle (set_handle i' k' Contended w) i k = Acquired"
    unfolding handle_set_handle using n hi by presburger
  moreover have "handle (set_handle i' k' Contended w) j k = Contended"
    unfolding handle_set_handle using hj by presburger
  ultimately show ?thesis
    unfolding try_acquire_held [OF Some] by (rule conjI)
qed

lemma wait_release:
  assumes hi: "handle w i k = Acquired" and hj: "handle w j k = Contended"
    and h: "\<not> (i' = i \<and> k' = k)" and ha: "handle w i' k' = Acquired"
  shows "handle (release i' k' w) i k = Acquired
       \<and> handle (release i' k' w) j k = Contended"
proof -
  have n1: "\<not> (i = i' \<and> k = k')" using h by auto
  have n2: "\<not> (j = i' \<and> k = k')" using ha hj by auto
  show ?thesis using n1 n2 hi hj by (simp add: handle_release)
qed

lemma wait_step:
  assumes inv: "lock_inv w" and ne: "i \<noteq> j"
    and hi: "handle w i k = Acquired" and hj: "handle w j k = Contended"
    and e: "e \<noteq> Unlock_call i k" "e \<noteq> Session_expiry i k" "e \<noteq> Lock_deadline j k"
  shows "handle (lock_step w e) i k = Acquired \<and> handle (lock_step w e) j k = Contended"
proof -
  from inv hi have held: "kv_lock w k = Some i" by (rule lock_invD2)
  note acq = wait_try_acquire [OF held ne hi hj]
  note rel = wait_release [OF hi hj]
  show ?thesis
  proof (cases e)
    case (Lock_call i' k')
    show ?thesis
    proof (cases "handle w i' k' = Unlocked")
      case True
      then have "handle w i' k' \<noteq> Acquired" by simp
      from acq [OF this] True show ?thesis by (simp add: Lock_call)
    next
      case False
      then show ?thesis using hi hj by (simp add: Lock_call)
    qed
  next
    case (Lock_retry i' k')
    show ?thesis
    proof (cases "handle w i' k' = Contended")
      case True
      then have "handle w i' k' \<noteq> Acquired" by simp
      from acq [OF this] True show ?thesis by (simp add: Lock_retry)
    next
      case False
      then show ?thesis using hi hj by (simp add: Lock_retry)
    qed
  next
    case (Lock_deadline i' k')
    with e(3) have n2: "\<not> (j = i' \<and> k = k')" by auto
    show ?thesis
    proof (cases "handle w i' k' = Contended")
      case True
      with hi have n1: "\<not> (i = i' \<and> k = k')" by auto
      show ?thesis using n1 n2 True hi hj
        by (simp add: Lock_deadline handle_set_handle)
    next
      case False
      then show ?thesis using hi hj by (simp add: Lock_deadline)
    qed
  next
    case (Unlock_call i' k')
    with e(1) have n: "\<not> (i' = i \<and> k' = k)" by simp
    show ?thesis
    proof (cases "handle w i' k' = Acquired")
      case True
      with rel [OF n True] show ?thesis by (simp add: Unlock_call)
    next
      case False
      then show ?thesis using hi hj by (simp add: Unlock_call)
    qed
  next
    case (Session_expiry i' k')
    with e(2) have n: "\<not> (i' = i \<and> k' = k)" by simp
    show ?thesis
    proof (cases "handle w i' k' = Acquired")
      case True
      with rel [OF n True] show ?thesis by (simp add: Session_expiry)
    next
      case False
      then show ?thesis using hi hj by (simp add: Session_expiry)
    qed
  qed
qed

lemma wait_run:
  assumes "lock_inv w" "i \<noteq> j" "handle w i k = Acquired" "handle w j k = Contended"
    and "keeps_waiting i j k evs"
  shows "handle (lock_run w evs) i k = Acquired \<and> handle (lock_run w evs) j k = Contended"
  using assms
proof (induction evs arbitrary: w)
  case Nil
  then show ?case by (simp add: lock_run_def)
next
  case (Cons e evs)
  from Cons.prems(5) have e: "e \<noteq> Unlock_call i k" "e \<noteq> Session_expiry i k"
      "e \<noteq> Lock_deadline j k" and rest: "keeps_waiting i j k evs"
    by (simp_all add: keeps_waiting_def)
  have s: "handle (lock_step w e) i k = Acquired \<and> handle (lock_step w e) j k = Contended"
    by (rule wait_step [OF Cons.prems(1-4) e])
  have inv: "lock_inv (lock_step w e)"
    by (rule lock_inv_step [OF Cons.prems(1)])
  have "handle (lock_run (lock_step w e) evs) i k = Acquired
      \<and> handle (lock_run (lock_step w e) evs) j k = Contended"
    using s by (intro Cons.IH [OF inv Cons.prems(2) _ _ rest]) simp_all
  then show ?case by (simp add: lock_run_def)
qed

lemma blocked_call:
  assumes "lock_inv w" "i \<noteq> j" "handle w i k = Acquired" "handle w j k = Unlocked"
  shows "handle (lock_step w (Lock_call j k)) j k = Contended
       \<and> handle (lock_step w (Lock_call j k)) i k = Acquired"
proof -
  from assms have held: "kv_lock w k = Some i" by (simp add: lock_invD2)
  show ?thesis using assms by (simp add: try_acquire_held [OF held] handle_set_handle)
qed

lemma handover:
  assumes "lock_inv w" "i \<noteq> j" "handle w i k = Acquired" "handle w j k = Contended"
  shows "handle (lock_step (lock_step w (Unlock_call i k)) (Lock_retry j k)) j k = Acquired
       \<and> handle (lock_step (lock_step w (Unlock_call i k)) (Lock_retry j k)) i k = Unlocked"
proof -
  define w' where "w' = release i k w"
  have u: "lock_step w (Unlock_call i k) = w'"
    using assms by (simp add: w'_def)
  have free: "kv_lock w' k = None"
    by (simp add: w'_def release_def kv_lock_set_handle)
  have hj: "handle w' j k = Contended" and hi: "handle w' i k = Unlocked"
    using assms by (simp_all add: w'_def release_def handle_set_handle)
  show ?thesis
    unfolding u using hj hi assms(2)
    by (simp add: try_acquire_free [OF free] handle_set_handle)
qed

text \<open>
  Claim C3. Mutual exclusion. In every state that the instances reach from the
  initial one, at most one handle per lock key is acquired. When \<open>j\<close> calls
  \<open>Lock\<close> on a key that \<open>i\<close> holds, the call is blocked, neither failed nor
  acquired, and stays so through every further event other than the holder's
  \<open>Unlock\<close>, the expiry of the holder's session and the deadline of the call
  itself; after the holder's \<open>Unlock\<close> the retry of the blocked call acquires
  the key.
\<close>

theorem lock_mutual_exclusion:
  "(\<forall>evs k i j. handle (lock_run lock_init evs) i k = Acquired
        \<and> handle (lock_run lock_init evs) j k = Acquired \<longrightarrow> i = j)
   \<and> (\<forall>evs more k i j.
        i \<noteq> j \<and> handle (lock_run lock_init evs) i k = Acquired
        \<and> handle (lock_run lock_init evs) j k = Unlocked
        \<and> keeps_waiting i j k more \<longrightarrow>
        (let w1 = lock_step (lock_run lock_init evs) (Lock_call j k);
             w2 = lock_run w1 more;
             w3 = lock_step (lock_step w2 (Unlock_call i k)) (Lock_retry j k)
         in handle w1 j k = Contended \<and> handle w1 i k = Acquired
          \<and> handle w2 j k = Contended \<and> handle w2 i k = Acquired
          \<and> handle w3 j k = Acquired \<and> handle w3 i k = Unlocked))"
proof (intro conjI allI impI)
  fix evs k i j
  assume "handle (lock_run lock_init evs) i k = Acquired
        \<and> handle (lock_run lock_init evs) j k = Acquired"
  moreover have "lock_inv (lock_run lock_init evs)"
    by (rule lock_inv_run [OF lock_inv_init])
  ultimately have "kv_lock (lock_run lock_init evs) k = Some i"
    and "kv_lock (lock_run lock_init evs) k = Some j" by (simp_all add: lock_invD2)
  then show "i = j" by simp
next
  fix evs more k i j
  assume a: "i \<noteq> j \<and> handle (lock_run lock_init evs) i k = Acquired
        \<and> handle (lock_run lock_init evs) j k = Unlocked
        \<and> keeps_waiting i j k more"
  define w where "w = lock_run lock_init evs"
  define w1 where "w1 = lock_step w (Lock_call j k)"
  define w2 where "w2 = lock_run w1 more"
  have iw: "lock_inv w" unfolding w_def by (rule lock_inv_run [OF lock_inv_init])
  have i1: "lock_inv w1" unfolding w1_def by (rule lock_inv_step [OF iw])
  have i2: "lock_inv w2" unfolding w2_def by (rule lock_inv_run [OF i1])
  from a have ne: "i \<noteq> j" and hi: "handle w i k = Acquired" and hj: "handle w j k = Unlocked"
    and kw: "keeps_waiting i j k more" by (simp_all add: w_def)
  have b1: "handle w1 j k = Contended \<and> handle w1 i k = Acquired"
    unfolding w1_def using blocked_call [OF iw ne hi hj] by simp
  have b2: "handle w2 i k = Acquired \<and> handle w2 j k = Contended"
    unfolding w2_def using wait_run [OF i1 ne _ _ kw] b1 by simp
  have b3: "handle (lock_step (lock_step w2 (Unlock_call i k)) (Lock_retry j k)) j k = Acquired
       \<and> handle (lock_step (lock_step w2 (Unlock_call i k)) (Lock_retry j k)) i k = Unlocked"
    using handover [OF i2 ne] b2 by simp
  show "let w1 = lock_step (lock_run lock_init evs) (Lock_call j k);
             w2 = lock_run w1 more;
             w3 = lock_step (lock_step w2 (Unlock_call i k)) (Lock_retry j k)
         in handle w1 j k = Contended \<and> handle w1 i k = Acquired
          \<and> handle w2 j k = Contended \<and> handle w2 i k = Acquired
          \<and> handle w3 j k = Acquired \<and> handle w3 i k = Unlocked"
    unfolding Let_def w_def [symmetric] w1_def [symmetric] w2_def [symmetric]
    using b1 b2 b3 by blast
qed


theorem lock_mutual_exclusion_witness:
  "(1::nat) \<noteq> 2
   \<and> handle (lock_run lock_init [Lock_call 1 ''lock'']) 1 ''lock'' = Acquired
   \<and> handle (lock_run lock_init [Lock_call 1 ''lock'']) 2 ''lock'' = Unlocked
   \<and> keeps_waiting 1 2 ''lock'' [Lock_retry 2 ''lock'']
   \<and> handle (lock_run lock_init
         [Lock_call 1 ''lock'', Lock_call 2 ''lock'', Lock_retry 2 ''lock'']) 2 ''lock''
       = Contended
   \<and> handle (lock_run lock_init
         [Lock_call 1 ''lock'', Lock_call 2 ''lock'', Lock_retry 2 ''lock'',
          Unlock_call 1 ''lock'', Lock_retry 2 ''lock'']) 2 ''lock''
       = Acquired"
proof -
  have h1: "handle (lock_run lock_init [Lock_call 1 ''lock'']) 1 ''lock'' = Acquired"
    and h2: "handle (lock_run lock_init [Lock_call 1 ''lock'']) 2 ''lock'' = Unlocked"
    by (simp_all add: lock_run_def lock_init_def try_acquire_def casPut_def set_handle_def)
  have kw: "keeps_waiting 1 2 ''lock'' [Lock_retry 2 ''lock'']"
    by (simp add: keeps_waiting_def)
  have "(1::nat) \<noteq> 2 \<and> handle (lock_run lock_init [Lock_call 1 ''lock'']) 1 ''lock'' = Acquired
        \<and> handle (lock_run lock_init [Lock_call 1 ''lock'']) 2 ''lock'' = Unlocked
        \<and> keeps_waiting 1 2 ''lock'' [Lock_retry 2 ''lock'']"
    using h1 h2 kw by simp
  with lock_mutual_exclusion
  have "let w1 = lock_step (lock_run lock_init [Lock_call 1 ''lock'']) (Lock_call 2 ''lock'');
            w2 = lock_run w1 [Lock_retry 2 ''lock''];
            w3 = lock_step (lock_step w2 (Unlock_call 1 ''lock'')) (Lock_retry 2 ''lock'')
        in handle w1 2 ''lock'' = Contended \<and> handle w1 1 ''lock'' = Acquired
         \<and> handle w2 2 ''lock'' = Contended \<and> handle w2 1 ''lock'' = Acquired
         \<and> handle w3 2 ''lock'' = Acquired \<and> handle w3 1 ''lock'' = Unlocked"
    by blast
  then have "handle (lock_run lock_init
         [Lock_call 1 ''lock'', Lock_call 2 ''lock'', Lock_retry 2 ''lock'']) 2 ''lock''
       = Contended
   \<and> handle (lock_run lock_init
         [Lock_call 1 ''lock'', Lock_call 2 ''lock'', Lock_retry 2 ''lock'',
          Unlock_call 1 ''lock'', Lock_retry 2 ''lock'']) 2 ''lock''
       = Acquired"
    by (simp add: Let_def lock_run_def del: lock_step.simps)
  moreover have "(1::nat) \<noteq> 2" by simp
  ultimately show ?thesis using h1 h2 kw by blast
qed

end
